theory Spec2Isabelle
  imports Main "HOL-Library.Word"
begin

section \<open>Byte slices and the library calls the managers use\<close>

text \<open>
  A Go \<open>[]byte\<close> is a \<open>char list\<close>: an Isabelle \<open>char\<close> is one byte.  The functions of
  this section stand for the calls into Go's \<open>bytes\<close>, \<open>strconv\<close>, \<open>fmt\<close> and
  \<open>regexp\<close> packages that TFmanager/main.go and the LLmanager source make.
\<close>

type_synonym bytes = "char list"

abbreviation LF :: char where "LF \<equiv> CHR 0x0A"
abbreviation CR :: char where "CR \<equiv> CHR 0x0D"

text \<open>\<open>bytes.Replace(b, []byte("\r"), []byte("\n"), -1)\<close>.\<close>

definition normalize :: "bytes \<Rightarrow> bytes" where
  "normalize b = map (\<lambda>c. if c = CR then LF else c) b"

text \<open>\<open>bytes.Contains(b, sub)\<close>: \<open>sub\<close> occurs in \<open>b\<close> as a contiguous run.\<close>

fun bytes_Contains :: "bytes \<Rightarrow> bytes \<Rightarrow> bool" where
  "bytes_Contains [] sub = (sub = [])"
| "bytes_Contains (c # cs) sub = (take (length sub) (c # cs) = sub \<or> bytes_Contains cs sub)"

text \<open>\<open>bytes.Join(s, sep)\<close>.\<close>

fun bytes_Join :: "bytes list \<Rightarrow> bytes \<Rightarrow> bytes" where
  "bytes_Join [] sep = []"
| "bytes_Join [x] sep = x"
| "bytes_Join (x # y # ys) sep = x @ sep @ bytes_Join (y # ys) sep"

text \<open>\<open>bytes.TrimRight(s, cutset)\<close>: drop the trailing bytes that are in \<open>cutset\<close>.\<close>

definition bytes_TrimRight :: "bytes \<Rightarrow> bytes \<Rightarrow> bytes" where
  "bytes_TrimRight s cutset = rev (dropWhile (\<lambda>c. c \<in> set cutset) (rev s))"

text \<open>\<open>bytes.LastIndexByte(s, c)\<close> and \<open>bytes.LastIndex(s, []byte{c})\<close>: the index of
  the last \<open>c\<close> in \<open>s\<close>, or \<open>-1\<close>.\<close>

definition bytes_LastIndexByte :: "bytes \<Rightarrow> char \<Rightarrow> int" where
  "bytes_LastIndexByte s c =
     (if c \<in> set s then int (length s) - 1 - int (length (takeWhile (\<lambda>x. x \<noteq> c) (rev s)))
      else - 1)"

definition isDigit :: "char \<Rightarrow> bool" where
  "isDigit c = (48 \<le> (of_char c :: nat) \<and> (of_char c :: nat) \<le> 57)"

text \<open>The lines of a text: the pieces between the newline bytes.  In Go's regexp syntax
  \<open>.\<close> does not match a newline, so no match of the patterns below crosses a line.\<close>

primrec splitLines :: "bytes \<Rightarrow> bytes list" where
  "splitLines [] = [[]]"
| "splitLines (c # cs) =
     (if c = LF then [] # splitLines cs
      else (case splitLines cs of [] \<Rightarrow> [[c]] | l # ls \<Rightarrow> (c # l) # ls))"

subsection \<open>The result patterns of TFmanager\<close>

text \<open>
  \<open>resultExtract = regexp.MustCompile(`M([0-9]+)`)\<close>; \<open>resultExtract.Find(b)\<close> is the
  leftmost \<open>M\<close> that a digit follows, with all the digits after it (the repetition is
  greedy), and \<open>nil\<close> when there is none.
\<close>

fun resultExtract_Find :: "bytes \<Rightarrow> bytes option" where
  "resultExtract_Find [] = None"
| "resultExtract_Find (c # cs) =
     (if c = CHR ''M'' \<and> takeWhile isDigit cs \<noteq> [] then Some (c # takeWhile isDigit cs)
      else resultExtract_Find cs)"

text \<open>
  \<open>resultReg = regexp.MustCompile(`.*M([0-9]+) .*`)\<close>.  A line matches when it holds an
  \<open>M\<close>, one or more digits and a space; the match is then the whole line (both \<open>.*\<close>
  are greedy and the leftmost match starts at the beginning of the line), so
  \<open>resultReg.FindAll(curr, -1)\<close> is the list of the matching lines, in order.
\<close>

fun resultReg_Match :: "bytes \<Rightarrow> bool" where
  "resultReg_Match [] = False"
| "resultReg_Match (c # cs) =
     ((c = CHR ''M'' \<and> takeWhile isDigit cs \<noteq> [] \<and>
        (case dropWhile isDigit cs of [] \<Rightarrow> False | d # _ \<Rightarrow> d = CHR '' ''))
      \<or> resultReg_Match cs)"

definition resultReg_FindAll :: "bytes \<Rightarrow> bytes list" where
  "resultReg_FindAll b = filter resultReg_Match (splitLines b)"

section \<open>TFmanager: filterResults\<close>

text \<open>
  \<open>filterResults(results, todo)\<close> walks the records in order with the map \<open>asgns\<close> from
  the text of the key match to 1 (keep) or 2 (send).  \<open>string(asgn)\<close> of a \<open>nil\<close> match is
  the empty string, and \<open>asgn[1:]\<close> of a \<open>nil\<close> match panics: the result is \<open>None\<close> then.
\<close>

definition match_string :: "bytes option \<Rightarrow> bytes" where
  "match_string m = (case m of None \<Rightarrow> [] | Some a \<Rightarrow> a)"

fun filterLoop ::
  "bytes list \<Rightarrow> bytes \<Rightarrow> (bytes \<rightharpoonup> int) \<Rightarrow> bytes list \<Rightarrow> bytes list
     \<Rightarrow> (bytes list \<times> bytes list) option" where
  "filterLoop [] todo asgns keep send = Some (keep, send)"
| "filterLoop (r # rs) todo asgns keep send =
     (let asgn = resultExtract_Find r in
      case asgns (match_string asgn) of
        Some loc \<Rightarrow>
          (if loc = 1 then filterLoop rs todo asgns (keep @ [r]) send
           else if loc = 2 then filterLoop rs todo asgns keep (send @ [r])
           else filterLoop rs todo asgns keep send)
      | None \<Rightarrow>
          (case asgn of
             None \<Rightarrow> None
           | Some a \<Rightarrow>
               (if length a < 1 then None
                else if bytes_Contains todo (drop 1 a)
                then filterLoop rs todo (asgns(a \<mapsto> 1)) (keep @ [r]) send
                else filterLoop rs todo (asgns(a \<mapsto> 2)) keep (send @ [r]))))"

definition filterResults :: "bytes list \<Rightarrow> bytes \<Rightarrow> (bytes list \<times> bytes list) option" where
  "filterResults results todo = filterLoop results todo Map.empty [] []"

text \<open>The numeric key of a record: the digits of its key match.\<close>

definition record_key :: "bytes \<Rightarrow> bytes" where
  "record_key r = drop 1 (match_string (resultExtract_Find r))"

definition retained :: "bytes \<Rightarrow> bytes \<Rightarrow> bool" where
  "retained todo r = bytes_Contains todo (record_key r)"

text \<open>The map only ever holds the classification that the key test gives.\<close>

definition asgns_ok :: "bytes \<Rightarrow> (bytes \<rightharpoonup> int) \<Rightarrow> bool" where
  "asgns_ok todo asgns \<longleftrightarrow>
     (\<forall>a loc. asgns a = Some loc \<longrightarrow>
        a \<noteq> [] \<and> (if bytes_Contains todo (drop 1 a) then loc = 1 else loc = 2))"

section \<open>The chunked submission loop\<close>

text \<open>
  \<open>sendlimit\<close>: the limit of mersenne.org/manual-result is 2MB, and a buffer of 1K is
  left for safety.
\<close>

definition sendlimit :: nat where
  "sendlimit = 2 * 1024 * 1024 - 1024"

text \<open>
  What the program cannot decide is a field of \<open>io\<close>: whether the lock files could be
  created, whether a file could be opened and read, what the \<open>k\<close>-th call of \<open>sendbatch\<close>
  answers for its payload (\<open>True\<close> when the response holds \<open>processing:\<close>, \<open>False\<close> on any
  other response and on a transport error), and what a write reports: the number of
  bytes written and whether an error came with it.  The three files of a device are
  held by their contents; a file that \<open>O_CREATE\<close> makes on opening has no contents.
  \<open>Truncate\<close>, whose result the program never looks at, is taken to succeed.
\<close>

record disk =
  todo_txt :: bytes
  res_txt :: bytes
  sent_txt :: bytes

record io =
  lockFile_ok :: bool
  open_todo_ok :: bool
  open_res_ok :: bool
  open_sent_ok :: bool
  read_todo_ok :: bool
  read_res_ok :: bool
  sendbatch :: "nat \<Rightarrow> bytes \<Rightarrow> bool"
  sent_Write :: "nat \<Rightarrow> bytes \<Rightarrow> nat \<times> bool"
  res_WriteAt :: "bytes \<Rightarrow> nat \<times> bool"

text \<open>A write never reports more bytes than it was given.\<close>

definition written :: "nat \<times> bool \<Rightarrow> bytes \<Rightarrow> nat" where
  "written w p = min (fst w) (length p)"

datatype loop_exit = LoopDone | LocError | SendBatchFailed | SentWriteError

text \<open>
  \<open>loc\<close> of one round of the loop, for the unsent rest \<open>results[i:]\<close>:
  \<^verbatim>\<open>if len(results[i:]) > sendlimit { loc = bytes.LastIndexByte(results[i:i+sendlimit], '\n') + 1 }
  else { loc = len(results[i:]) }\<close>
\<close>

definition chunkLoc :: "nat \<Rightarrow> bytes \<Rightarrow> int" where
  "chunkLoc lim rest =
     (if length rest > lim then bytes_LastIndexByte (take lim rest) LF + 1
      else int (length rest))"

text \<open>
  The loop \<open>for loc, i := 0, 0; i < len(results)-1; i += loc\<close>, with the limit as a
  parameter.  The state is the ledger file (opened for appending) and the payloads
  handed to \<open>sendbatch\<close> so far, in order; the exit says which \<open>return false\<close> ended the
  loop, or that it ran to its end.
\<close>

function sendLoop ::
  "nat \<Rightarrow> io \<Rightarrow> bytes \<Rightarrow> nat \<Rightarrow> bytes \<Rightarrow> bytes list \<Rightarrow> loop_exit \<times> bytes \<times> bytes list" where
  "sendLoop lim e results i ledger batches =
     (if int i < int (length results) - 1 then
        (if chunkLoc lim (drop i results) \<le> 0 then (LocError, ledger, batches)
         else
           (let batch = take (nat (chunkLoc lim (drop i results))) (drop i results) in
            if \<not> sendbatch e (length batches) batch
            then (SendBatchFailed, ledger, batches @ [batch])
            else
              (let w = sent_Write e (length batches) batch;
                   ledger' = ledger @ take (written w batch) batch in
               if snd w \<or> written w batch \<noteq> length batch
               then (SentWriteError, ledger', batches @ [batch])
               else sendLoop lim e results (i + nat (chunkLoc lim (drop i results)))
                      ledger' (batches @ [batch]))))
      else (LoopDone, ledger, batches))"
  by pat_completeness auto
termination
  by (relation "measure (\<lambda>(lim, e, results, i, ledger, batches). length results - i)") auto

declare sendLoop.simps [simp del]

section \<open>TFmanager: sendResults\<close>

datatype outcome =
    LockFailed | OpenTodoFailed | OpenResFailed | OpenSentFailed | ReadTodoFailed
  | ReadResFailed | NoResults | Panicked | LoopFailed loop_exit | KeptWriteError | Complete

record result =
  success :: bool
  outcome :: outcome
  files :: disk
  batches_sent :: "bytes list"

definition early :: "bool \<Rightarrow> outcome \<Rightarrow> disk \<Rightarrow> result" where
  "early ok oc d = \<lparr>success = ok, outcome = oc, files = d, batches_sent = []\<rparr>"

text \<open>
  The part of \<open>sendResults\<close> after the loop.  When the loop left by a \<open>return false\<close>,
  nothing more happens.  Otherwise a newline goes to the ledger if anything was sent
  (its result is not looked at), and the kept records are written over the results
  file from offset 0; the file is cut to that length only when the write was complete,
  and the function returns \<open>true\<close> in both cases.
\<close>

definition finish ::
  "io \<Rightarrow> disk \<Rightarrow> bytes list \<Rightarrow> bytes list \<Rightarrow> loop_exit \<times> bytes \<times> bytes list \<Rightarrow> result" where
  "finish e d keep send lp =
     (case lp of (ex, ledger, batches) \<Rightarrow>
        if ex \<noteq> LoopDone
        then \<lparr>success = False, outcome = LoopFailed ex,
              files = d\<lparr>sent_txt := ledger\<rparr>, batches_sent = batches\<rparr>
        else
          (let ledger' = (if length send > 0
                          then ledger @ take (written (sent_Write e (length batches) [LF]) [LF]) [LF]
                          else ledger);
               keepRes = bytes_Join keep [LF] @ [LF];
               w = res_WriteAt e keepRes;
               n = written w keepRes in
           if n = length keepRes \<and> \<not> snd w
           then \<lparr>success = True, outcome = Complete,
                 files = d\<lparr>res_txt := keepRes, sent_txt := ledger'\<rparr>, batches_sent = batches\<rparr>
           else \<lparr>success = True, outcome = KeptWriteError,
                 files = d\<lparr>res_txt := take n keepRes @ drop n (res_txt d), sent_txt := ledger'\<rparr>,
                 batches_sent = batches\<rparr>))"

text \<open>The blob handed to the loop: \<open>bytes.TrimRight(bytes.Join(send, []byte("\n")), " \n")\<close>.\<close>

definition blob :: "bytes list \<Rightarrow> bytes" where
  "blob send = bytes_TrimRight (bytes_Join send [LF]) [CHR '' '', LF]"

definition sendResults :: "io \<Rightarrow> disk \<Rightarrow> result" where
  "sendResults e d =
     (if \<not> lockFile_ok e then early False LockFailed d
      else if \<not> open_todo_ok e then early False OpenTodoFailed d
      else if \<not> open_res_ok e then early False OpenResFailed d
      else if \<not> open_sent_ok e then early False OpenSentFailed d
      else if \<not> read_todo_ok e then early False ReadTodoFailed d
      else if \<not> read_res_ok e then early False ReadResFailed d
      else
        (let asgn = normalize (todo_txt d);
             curRes = resultReg_FindAll (normalize (res_txt d)) in
         if curRes = [] then early True NoResults d
         else
           (case filterResults curRes asgn of
              None \<Rightarrow> early False Panicked d
            | Some (keep, send) \<Rightarrow>
                finish e d keep send (sendLoop sendlimit e (blob send) 0 (sent_txt d) []))))"

section \<open>LLmanager: sendResults\<close>

text \<open>
  \<open>resultReg = regexp.MustCompile(`M\( ([0-9]*) \).*`)\<close>: the match starts at the first
  \<open>M( \<close>, digits, \<open> )\<close> of a line and runs to the end of the line.
\<close>

definition LL_resultReg_here :: "bytes \<Rightarrow> bool" where
  "LL_resultReg_here s \<longleftrightarrow>
     take 3 s = ''M( '' \<and> take 2 (dropWhile isDigit (drop 3 s)) = '' )''"

fun LL_resultReg_Find :: "bytes \<Rightarrow> bytes option" where
  "LL_resultReg_Find [] = None"
| "LL_resultReg_Find (c # cs) =
     (if LL_resultReg_here (c # cs) then Some (c # cs) else LL_resultReg_Find cs)"

definition LL_resultReg_FindAll :: "bytes \<Rightarrow> bytes list" where
  "LL_resultReg_FindAll b = List.map_filter LL_resultReg_Find (splitLines b)"

text \<open>The number between the brackets of an LLmanager record (group 1 of its pattern).\<close>

definition LL_record_key :: "bytes \<Rightarrow> bytes" where
  "LL_record_key r = takeWhile isDigit (drop 3 r)"

text \<open>
  LLmanager's \<open>sendResults\<close> locks and opens the results and the ledger file only.  A
  failed open of the results file is logged and the read that follows fails on the
  \<open>nil\<close> file.  Every record found goes into the blob; after the loop a newline goes to
  the ledger and the results file is truncated to nothing.
\<close>

definition LL_finish :: "io \<Rightarrow> disk \<Rightarrow> loop_exit \<times> bytes \<times> bytes list \<Rightarrow> result" where
  "LL_finish e d lp =
     (case lp of (ex, ledger, batches) \<Rightarrow>
        if ex \<noteq> LoopDone
        then \<lparr>success = False, outcome = LoopFailed ex,
              files = d\<lparr>sent_txt := ledger\<rparr>, batches_sent = batches\<rparr>
        else \<lparr>success = True, outcome = Complete,
              files = d\<lparr>res_txt := [],
                sent_txt := ledger @ take (written (sent_Write e (length batches) [LF]) [LF]) [LF]\<rparr>,
              batches_sent = batches\<rparr>)"

definition LL_sendResults :: "io \<Rightarrow> disk \<Rightarrow> result" where
  "LL_sendResults e d =
     (if \<not> lockFile_ok e then early False LockFailed d
      else if \<not> open_res_ok e \<or> \<not> read_res_ok e then early False ReadResFailed d
      else if \<not> open_sent_ok e then early False OpenSentFailed d
      else
        (let curRes = LL_resultReg_FindAll (normalize (res_txt d)) in
         if curRes = [] then early True NoResults d
         else LL_finish e d (sendLoop sendlimit e (blob curRes) 0 (sent_txt d) [])))"

section \<open>Notions the claims are stated with\<close>

text \<open>
  The records of the results file, the queue text they are tested against, and the two
  sequences of the claims: the records whose key occurs in the queue text, and the
  others, each in file order.
\<close>

definition curRes :: "disk \<Rightarrow> bytes list" where
  "curRes d = resultReg_FindAll (normalize (res_txt d))"

definition asgn :: "disk \<Rightarrow> bytes" where
  "asgn d = normalize (todo_txt d)"

definition keep_of :: "disk \<Rightarrow> bytes list" where
  "keep_of d = filter (retained (asgn d)) (curRes d)"

definition send_of :: "disk \<Rightarrow> bytes list" where
  "send_of d = filter (\<lambda>r. \<not> retained (asgn d) r) (curRes d)"

text \<open>What TFmanager writes over the results file:
  \<open>append(bytes.Join(keep, []byte("\n")), byte('\n'))\<close>.\<close>

definition keepRes :: "disk \<Rightarrow> bytes" where
  "keepRes d = bytes_Join (keep_of d) [LF] @ [LF]"

definition LL_curRes :: "disk \<Rightarrow> bytes list" where
  "LL_curRes d = LL_resultReg_FindAll (normalize (res_txt d))"


text \<open>The locks are taken and the files are opened and read.\<close>

definition files_ready :: "io \<Rightarrow> bool" where
  "files_ready e \<longleftrightarrow>
     lockFile_ok e \<and> open_todo_ok e \<and> open_res_ok e \<and> open_sent_ok e \<and>
     read_todo_ok e \<and> read_res_ok e"

text \<open>A run in which nothing fails: every batch is acknowledged, every write is complete.\<close>

definition io_ok :: io where
  "io_ok = \<lparr>lockFile_ok = True, open_todo_ok = True, open_res_ok = True, open_sent_ok = True,
     read_todo_ok = True, read_res_ok = True, sendbatch = (\<lambda>k b. True),
     sent_Write = (\<lambda>k b. (length b, False)), res_WriteAt = (\<lambda>b. (length b, False))\<rparr>"

text \<open>The same, but every batch is refused; the ledger cannot be written; the write of
  the kept records stops after three bytes with an error.\<close>

definition refusing :: io where
  "refusing = io_ok\<lparr>sendbatch := \<lambda>k b. False\<rparr>"

definition ledger_unwritable :: io where
  "ledger_unwritable = io_ok\<lparr>sent_Write := \<lambda>k b. (0, True)\<rparr>"

definition short_rewrite :: io where
  "short_rewrite = io_ok\<lparr>res_WriteAt := \<lambda>b. (3, True)\<rparr>"

section \<open>TFmanager: fetching assignments\<close>

text \<open>
  \<open>workReg = regexp.MustCompile(`(Factor)=.*(,[0-9]+){3}`)\<close>.  \<open>group\<close> is the length of a
  match of \<open>,[0-9]+\<close> at the head of a text and \<open>tripleAt\<close> that of \<open>(,[0-9]+){3}\<close>; the
  digit runs are greedy.  \<open>.*\<close> is greedy too, so the three groups of a match are the
  last three that the line has after \<open>Factor=\<close>: \<open>lastTriple\<close> is the offset at which
  they end.  The leftmost match of a line starts at its first \<open>Factor=\<close> that three groups
  follow, and a line has at most one match.
\<close>

definition group :: "bytes \<Rightarrow> nat option" where
  "group s =
     (case s of
        [] \<Rightarrow> None
      | c # r \<Rightarrow> if c = CHR '','' \<and> takeWhile isDigit r \<noteq> []
                 then Some (1 + length (takeWhile isDigit r)) else None)"

definition tripleAt :: "bytes \<Rightarrow> nat option" where
  "tripleAt s =
     (case group s of
        None \<Rightarrow> None
      | Some a \<Rightarrow>
          (case group (drop a s) of
             None \<Rightarrow> None
           | Some b \<Rightarrow>
               (case group (drop (a + b) s) of
                  None \<Rightarrow> None
                | Some c \<Rightarrow> Some (a + b + c))))"

fun lastTriple :: "bytes \<Rightarrow> nat option" where
  "lastTriple [] = None"
| "lastTriple (c # cs) =
     (case lastTriple cs of Some n \<Rightarrow> Some (Suc n) | None \<Rightarrow> tripleAt (c # cs))"

fun workReg_Find :: "bytes \<Rightarrow> bytes option" where
  "workReg_Find [] = None"
| "workReg_Find (c # cs) =
     (if take 7 (c # cs) = ''Factor=''
      then (case lastTriple (drop 7 (c # cs)) of
              Some n \<Rightarrow> Some (take (7 + n) (c # cs))
            | None \<Rightarrow> workReg_Find cs)
      else workReg_Find cs)"

definition workReg_FindAll :: "bytes \<Rightarrow> bytes list" where
  "workReg_FindAll b = List.map_filter workReg_Find (splitLines b)"

text \<open>
  \<open>strconv.Atoi\<close> on a 64-bit platform, its error dropped as in \<open>val, _ := strconv.Atoi(...)\<close>:
  an optional sign and decimal digits; 0 on anything else; the nearest bound of
  \<open>int\<close> when the number does not fit.
\<close>

definition decimal :: "bytes \<Rightarrow> int" where
  "decimal ds = foldl (\<lambda>a c. 10 * a + (int (of_char c) - 48)) 0 ds"

definition Atoi :: "bytes \<Rightarrow> int" where
  "Atoi s =
     (let neg = (s \<noteq> [] \<and> hd s = CHR ''-'');
          ds = (if s \<noteq> [] \<and> (hd s = CHR ''-'' \<or> hd s = CHR ''+'') then tl s else s) in
      if ds = [] \<or> \<not> list_all isDigit ds then 0
      else if neg then (if decimal ds > 2 ^ 63 then - (2 ^ 63) else - decimal ds)
      else (if decimal ds \<ge> 2 ^ 63 then 2 ^ 63 - 1 else decimal ds))"

text \<open>\<open>fmt.Sprint\<close> of an unsigned number: its decimal digits.\<close>

fun Sprint :: "nat \<Rightarrow> bytes" where
  "Sprint n =
     (if n < 10 then [''0123456789'' ! n]
      else Sprint (n div 10) @ [''0123456789'' ! (n mod 10)])"

declare Sprint.simps [simp del]

record device =
  Target :: "64 word"
  Cache :: "64 word"

text \<open>
  One round of the loop of \<open>setTargets\<close>, on the record \<open>wrk[i]\<close>.  \<open>uint(val)\<close> is the
  two's complement reading of \<open>val\<close>.  \<open>copy(dst, src)\<close> overwrites the first
  \<open>min(len(dst), len(src))\<close> bytes of \<open>dst\<close> and leaves its length as it is.
\<close>

definition copy :: "bytes \<Rightarrow> bytes \<Rightarrow> bytes" where
  "copy dst src = take (length dst) src @ drop (length src) dst"

definition setTarget :: "device \<Rightarrow> bytes \<Rightarrow> bytes" where
  "setTarget dev w =
     (let target = Sprint (unat (Target dev));
          idx = bytes_LastIndexByte w (CHR '','');
          val = Atoi (drop (nat (idx + 1)) w) in
      if (word_of_int val :: 64 word) < Target dev
      then take (nat (idx + 1)) w @ copy (drop (nat (idx + 1)) w) target
      else w)"

definition setTargets :: "device \<Rightarrow> bytes list \<Rightarrow> bytes list" where
  "setTargets dev wrk = map (setTarget dev) wrk"

text \<open>The value of the last comma-separated field of a record.\<close>

definition last_field :: "bytes \<Rightarrow> int" where
  "last_field w = Atoi (drop (nat (bytes_LastIndexByte w (CHR '','') + 1)) w)"

text \<open>
  The loop \<open>filterDups\<close> of \<open>getWorkGPU72\<close>: a record goes to \<open>w2\<close> unless a record with
  the same bytes is there already.
\<close>

fun filterDups :: "bytes list \<Rightarrow> bytes list \<Rightarrow> bytes list" where
  "filterDups [] w2 = w2"
| "filterDups (x # w) w2 = (if x \<in> set w2 then filterDups w w2 else filterDups w (w2 @ [x]))"

text \<open>
  The settings that \<open>topoff\<close> and \<open>main\<close> read, and what the network and the file system
  answer to \<open>topoff\<close>: the body of the response of each provider for a requested count
  (\<open>None\<close> when the request fails), and the result of writing the queue file.  A Go
  slice that is \<open>nil\<close> is \<open>None\<close>; \<open>FindAll\<close> returns \<open>nil\<close> when nothing matches.
\<close>

record settings =
  Polltime :: "64 word"
  primenet :: bool
  gpu72 :: bool
  Devices :: "device list"

record net =
  lock_todo_ok :: bool
  open_queue_ok :: bool
  read_queue_ok :: bool
  gpu72_body :: "64 word \<Rightarrow> bytes option"
  primenet_body :: "64 word \<Rightarrow> bytes option"
  todo_WriteAt :: "bytes \<Rightarrow> nat \<times> bool"

definition FindAll_result :: "bytes list \<Rightarrow> bytes list option" where
  "FindAll_result ms = (if ms = [] then None else Some ms)"

definition getWorkGPU72 :: "net \<Rightarrow> 64 word \<Rightarrow> device \<Rightarrow> bytes list option" where
  "getWorkGPU72 nt n dev =
     (case gpu72_body nt n of
        None \<Rightarrow> None
      | Some body \<Rightarrow> Some (filterDups (workReg_FindAll body) []))"

definition getWork :: "net \<Rightarrow> 64 word \<Rightarrow> device \<Rightarrow> bytes list option" where
  "getWork nt n dev =
     (case primenet_body nt n of
        None \<Rightarrow> None
      | Some body \<Rightarrow> map_option (setTargets dev) (FindAll_result (workReg_FindAll body)))"

definition len :: "bytes list option \<Rightarrow> nat" where
  "len work = (case work of None \<Rightarrow> 0 | Some w \<Rightarrow> length w)"

text \<open>
  \<open>topoff\<close> returns its verdict and the contents of the queue file afterwards.  The file
  is cut to nothing before the new queue is written from offset 0.
\<close>

definition topoff :: "settings \<Rightarrow> net \<Rightarrow> device \<Rightarrow> bytes \<Rightarrow> bool \<times> bytes" where
  "topoff sett nt dev queue =
     (if \<not> lock_todo_ok nt then (False, queue)
      else if \<not> open_queue_ok nt then (False, queue)
      else if \<not> read_queue_ok nt then (False, queue)
      else
        (let curWrk = workReg_FindAll (normalize queue) in
         if int (length curWrk) \<ge> sint (Cache dev) then (True, queue)
         else
           (let n = Cache dev - of_nat (length curWrk);
                work = (if gpu72 sett then getWorkGPU72 nt n dev else None);
                work' = (if len work = 0 \<and> primenet sett then getWork nt n dev else work) in
            case work' of
              None \<Rightarrow> (False, queue)
            | Some w \<Rightarrow>
                (let workFile = bytes_Join (curWrk @ w) [LF];
                     wr = todo_WriteAt nt workFile;
                     k = written wr workFile in
                 (\<not> (snd wr \<or> k \<noteq> length workFile), take k workFile)))))"

section \<open>The polling loops of main\<close>

text \<open>
  How the process ends: \<open>main\<close> returns, or \<open>log.Fatal\<close> ends it with status 1.  What a
  cycle meets is given by \<open>login_ok k\<close>, the answer of \<open>login()\<close> in the \<open>k\<close>-th round of
  the loop, and \<open>update_ok k i\<close>, the value of
  \<open>topoff(sett.Devices[i]) && sendResults(sett.Devices[i])\<close> in that round.  The loops
  may run forever: the result is \<open>None\<close> then.
\<close>

datatype exit = Returned | Fatal

record rounds =
  login_ok :: "nat \<Rightarrow> bool"
  update_ok :: "nat \<Rightarrow> nat \<Rightarrow> bool"

text \<open>
  TFmanager: \<open>for ct := 0; ct < 10; ct++\<close>, labelled \<open>polling\<close>.  \<open>continue\<close> runs the
  post statement \<open>ct++\<close>; \<open>break\<close> and the end of the loop both go on to the statement
  after the loop, \<open>log.Fatal("Failed 10 update attempts, exiting.")\<close>.
\<close>

definition after_polling :: exit where
  "after_polling = Fatal"

partial_function (option) polling :: "settings \<Rightarrow> rounds \<Rightarrow> nat \<Rightarrow> int \<Rightarrow> exit option" where
  "polling sett r k ct =
     (if ct < 10 then
        (if \<not> login_ok r k \<and> \<not> gpu72 sett then polling sett r (k + 1) (ct + 1)
         else if \<not> list_all (update_ok r k) [0..<length (Devices sett)]
         then polling sett r (k + 1) (ct + 1)
         else if Polltime sett = 0 then Some after_polling
         else polling sett r (k + 1) (- 1 + 1))
      else Some after_polling)"

definition main :: "bool \<Rightarrow> settings \<Rightarrow> rounds \<Rightarrow> exit option" where
  "main writeOpts sett r = (if writeOpts then Some Returned else polling sett r 0 0)"

text \<open>LLmanager: \<open>for { ... }\<close> with nothing after the loop, so \<open>break\<close> lets \<open>main\<close> return.\<close>

partial_function (option) LL_polling :: "settings \<Rightarrow> rounds \<Rightarrow> nat \<Rightarrow> exit option" where
  "LL_polling sett r k =
     (if \<not> login_ok r k then LL_polling sett r (k + 1)
      else if \<not> list_all (update_ok r k) [0..<length (Devices sett)]
      then LL_polling sett r (k + 1)
      else if Polltime sett = 0 then Some Returned
      else LL_polling sett r (k + 1))"

definition LL_main :: "bool \<Rightarrow> settings \<Rightarrow> rounds \<Rightarrow> exit option" where
  "LL_main writeOpts sett r = (if writeOpts then Some Returned else LL_polling sett r 0)"

section \<open>Runs without failures\<close>

text \<open>
  Providers that answer every request with the same body (\<open>None\<close>: the request fails),
  over a queue file that can be locked, read and written; and rounds in which the login
  and every update succeed.
\<close>

definition provider :: "bytes option \<Rightarrow> bytes option \<Rightarrow> net" where
  "provider g p =
     \<lparr>lock_todo_ok = True, open_queue_ok = True, read_queue_ok = True,
      gpu72_body = (\<lambda>n. g), primenet_body = (\<lambda>n. p),
      todo_WriteAt = (\<lambda>b. (length b, False))\<rparr>"

definition rounds_ok :: rounds where
  "rounds_ok = \<lparr>login_ok = (\<lambda>k. True), update_ok = (\<lambda>k i. True)\<rparr>"

section \<open>Facts about the library functions\<close>

lemma bytes_Contains_iff: "bytes_Contains b sub \<longleftrightarrow> (\<exists>p s. b = p @ sub @ s)"
proof (induction b)
  case Nil
  show ?case by auto
next
  case (Cons c cs)
  show ?case
  proof
    assume "bytes_Contains (c # cs) sub"
    then consider "take (length sub) (c # cs) = sub" | "bytes_Contains cs sub" by auto
    then show "\<exists>p s. c # cs = p @ sub @ s"
    proof cases
      case 1
      then have "c # cs = [] @ sub @ drop (length sub) (c # cs)"
        by (metis append_Nil append_take_drop_id)
      then show ?thesis by blast
    next
      case 2
      with Cons.IH obtain p s where "cs = p @ sub @ s" by blast
      then have "c # cs = (c # p) @ sub @ s" by simp
      then show ?thesis by blast
    qed
  next
    assume "\<exists>p s. c # cs = p @ sub @ s"
    then obtain p s where ps: "c # cs = p @ sub @ s" by blast
    show "bytes_Contains (c # cs) sub"
    proof (cases p)
      case Nil
      with ps have "take (length sub) (c # cs) = sub" by simp
      then show ?thesis by simp
    next
      case (Cons a p')
      with ps have "cs = p' @ sub @ s" by simp
      with Cons.IH have "bytes_Contains cs sub" by blast
      then show ?thesis by simp
    qed
  qed
qed

lemma resultExtract_Find_shape:
  "resultExtract_Find r = Some a \<Longrightarrow> \<exists>ds. a = CHR ''M'' # ds \<and> ds \<noteq> [] \<and> (\<forall>d\<in>set ds. isDigit d)"
proof (induction r)
  case Nil
  then show ?case by simp
next
  case (Cons c cs)
  then show ?case
    by (auto split: if_splits dest: set_takeWhileD)
qed

lemma resultReg_Match_has_key: "resultReg_Match r \<Longrightarrow> resultExtract_Find r \<noteq> None"
  by (induction r) auto

subsection \<open>filterResults is the partition by the key test\<close>

lemma asgns_ok_empty: "asgns_ok todo Map.empty"
  by (simp add: asgns_ok_def)

lemma asgns_ok_upd:
  "asgns_ok todo asgns \<Longrightarrow> a \<noteq> [] \<Longrightarrow>
   (if bytes_Contains todo (drop 1 a) then loc = 1 else loc = 2) \<Longrightarrow>
   asgns_ok todo (asgns(a \<mapsto> loc))"
  by (auto simp: asgns_ok_def)

lemma filterLoop_partition:
  "asgns_ok todo asgns \<Longrightarrow> \<forall>r\<in>set rs. resultExtract_Find r \<noteq> None \<Longrightarrow>
   filterLoop rs todo asgns keep send =
     Some (keep @ filter (retained todo) rs, send @ filter (\<lambda>r. \<not> retained todo r) rs)"
proof (induction rs arbitrary: asgns keep send)
  case Nil
  show ?case by simp
next
  case (Cons r rs)
  from Cons.prems(2) obtain a where a: "resultExtract_Find r = Some a" by auto
  then obtain ds where ds: "a = CHR ''M'' # ds" using resultExtract_Find_shape by blast
  have key: "record_key r = drop 1 a" by (simp add: record_key_def match_string_def a)
  have rest: "\<forall>r\<in>set rs. resultExtract_Find r \<noteq> None" using Cons.prems(2) by simp
  have alen: "\<not> length a < 1" using ds by simp
  have flt: "filter (retained todo) (r # rs) =
      (if bytes_Contains todo (drop 1 a) then r # filter (retained todo) rs
       else filter (retained todo) rs)"
    "filter (\<lambda>r. \<not> retained todo r) (r # rs) =
      (if bytes_Contains todo (drop 1 a) then filter (\<lambda>r. \<not> retained todo r) rs
       else r # filter (\<lambda>r. \<not> retained todo r) rs)"
    using key by (simp_all add: retained_def)
  show ?case
  proof (cases "asgns a")
    case None
    show ?thesis
    proof (cases "bytes_Contains todo (drop 1 a)")
      case True
      have step: "filterLoop (r # rs) todo asgns keep send =
          filterLoop rs todo (asgns(a \<mapsto> 1)) (keep @ [r]) send"
        using None True a alen by (simp add: match_string_def)
      have "asgns_ok todo (asgns(a \<mapsto> 1))"
        using Cons.prems(1) True ds by (intro asgns_ok_upd) auto
      note ih = Cons.IH [OF this rest, of "keep @ [r]" send]
      show ?thesis
        unfolding step flt ih using True by simp
    next
      case False
      have step: "filterLoop (r # rs) todo asgns keep send =
          filterLoop rs todo (asgns(a \<mapsto> 2)) keep (send @ [r])"
        using None False a alen by (simp add: match_string_def)
      have "asgns_ok todo (asgns(a \<mapsto> 2))"
        using Cons.prems(1) False ds by (intro asgns_ok_upd) auto
      note ih = Cons.IH [OF this rest, of keep "send @ [r]"]
      show ?thesis
        unfolding step flt ih using False by simp
    qed
  next
    case (Some loc)
    with Cons.prems(1) have loc: "if bytes_Contains todo (drop 1 a) then loc = 1 else loc = 2"
      by (simp add: asgns_ok_def)
    show ?thesis
    proof (cases "bytes_Contains todo (drop 1 a)")
      case True
      with loc have "loc = 1" by simp
      then have step: "filterLoop (r # rs) todo asgns keep send =
          filterLoop rs todo asgns (keep @ [r]) send"
        using Some a by (simp add: match_string_def)
      note ih = Cons.IH [OF Cons.prems(1) rest, of "keep @ [r]" send]
      show ?thesis
        unfolding step flt ih using True by simp
    next
      case False
      with loc have "loc = 2" by simp
      then have step: "filterLoop (r # rs) todo asgns keep send =
          filterLoop rs todo asgns keep (send @ [r])"
        using Some a by (simp add: match_string_def)
      note ih = Cons.IH [OF Cons.prems(1) rest, of keep "send @ [r]"]
      show ?thesis
        unfolding step flt ih using False by simp
    qed
  qed
qed

lemma filterResults_partition:
  "\<forall>r\<in>set results. resultExtract_Find r \<noteq> None \<Longrightarrow>
   filterResults results todo =
     Some (filter (retained todo) results, filter (\<lambda>r. \<not> retained todo r) results)"
  using filterLoop_partition [OF asgns_ok_empty, of results todo "[]" "[]"]
  by (simp add: filterResults_def)

subsection \<open>The chunked submission loop\<close>

lemma takeWhile_neq_less: "c \<in> set xs \<Longrightarrow> length (takeWhile (\<lambda>x. x \<noteq> c) xs) < length xs"
  by (induction xs) auto

lemma LastIndexByte_bounds:
  "- 1 \<le> bytes_LastIndexByte s c \<and> bytes_LastIndexByte s c < int (length s)"
proof (cases "c \<in> set s")
  case True
  then have "c \<in> set (rev s)" by simp
  then have "length (takeWhile (\<lambda>x. x \<noteq> c) (rev s)) < length (rev s)"
    by (rule takeWhile_neq_less)
  then show ?thesis using True by (simp add: bytes_LastIndexByte_def)
next
  case False
  then show ?thesis by (simp add: bytes_LastIndexByte_def)
qed

lemma LastIndexByte_nth:
  assumes "0 \<le> bytes_LastIndexByte s c"
  shows "s ! nat (bytes_LastIndexByte s c) = c"
proof -
  let ?k = "length (takeWhile (\<lambda>x. x \<noteq> c) (rev s))"
  from assms have mem: "c \<in> set s"
    by (auto simp: bytes_LastIndexByte_def split: if_splits)
  then have "c \<in> set (rev s)" by simp
  then have k: "?k < length (rev s)"
    by (rule takeWhile_neq_less)
  then have "\<not> (rev s ! ?k \<noteq> c)" by (rule nth_length_takeWhile)
  then have "rev s ! ?k = c" by simp
  moreover have "rev s ! ?k = s ! (length s - Suc ?k)" using k by (simp add: rev_nth)
  moreover have "nat (bytes_LastIndexByte s c) = length s - Suc ?k"
    using mem k by (simp add: bytes_LastIndexByte_def nat_diff_distrib)
  ultimately show ?thesis by simp
qed

lemma LastIndexByte_absent: "c \<notin> set s \<Longrightarrow> bytes_LastIndexByte s c = - 1"
  by (simp add: bytes_LastIndexByte_def)

lemma chunkLoc_le_length: "chunkLoc lim rest \<le> int (length rest)"
  using LastIndexByte_bounds [of "take lim rest" LF] by (auto simp: chunkLoc_def)

lemma chunkLoc_le_lim: "chunkLoc lim rest \<le> int lim"
  using LastIndexByte_bounds [of "take lim rest" LF] by (auto simp: chunkLoc_def)

lemma chunkLoc_newline:
  assumes "lim < length rest" "0 < chunkLoc lim rest"
  shows "rest ! (nat (chunkLoc lim rest) - 1) = LF"
proof -
  let ?ix = "bytes_LastIndexByte (take lim rest) LF"
  from assms have loc: "chunkLoc lim rest = ?ix + 1" by (simp add: chunkLoc_def)
  with assms have nn: "0 \<le> ?ix" by simp
  have lt: "?ix < int (length (take lim rest))" using LastIndexByte_bounds by blast
  have "take lim rest ! nat ?ix = LF" using nn by (rule LastIndexByte_nth)
  moreover have "nat ?ix < lim" using lt nn by simp
  ultimately have "rest ! nat ?ix = LF" by simp
  moreover have "nat (chunkLoc lim rest) - 1 = nat ?ix" using loc nn by simp
  ultimately show ?thesis by simp
qed

lemma chunkLoc_whole: "\<not> lim < length rest \<Longrightarrow> chunkLoc lim rest = int (length rest)"
  by (simp add: chunkLoc_def)

lemma sendLoop_run:
  "i \<le> length results \<Longrightarrow>
   sendLoop lim e results i ledger batches = (ex, ledger', batches') \<Longrightarrow>
   \<exists>new tail. batches' = batches @ new \<and> drop i results = concat new @ tail
      \<and> (\<forall>b\<in>set new. b \<noteq> [] \<and> length b \<le> lim)
      \<and> (\<forall>b\<in>set (butlast new). last b = LF)
      \<and> (ex = LoopDone \<longrightarrow> ledger' = ledger @ concat new \<and> length tail \<le> 1
            \<and> (new \<noteq> [] \<and> tail \<noteq> [] \<longrightarrow> last (last new) = LF))
      \<and> (ex = LocError \<longrightarrow> ledger' = ledger @ concat new)
      \<and> (ex = SendBatchFailed \<longrightarrow> new \<noteq> [] \<and> ledger' = ledger @ concat (butlast new)
            \<and> \<not> sendbatch e (length batches + length new - 1) (last new))
      \<and> (ex = SentWriteError \<longrightarrow> new \<noteq> []
            \<and> (\<exists>n. ledger' = ledger @ concat (butlast new) @ take n (last new)))"
proof (induction lim e results i ledger batches arbitrary: ex ledger' batches'
       rule: sendLoop.induct)
  case (1 lim e results i ledger batches)
  let ?rest = "drop i results"
  let ?loc = "chunkLoc lim ?rest"
  let ?batch = "take (nat ?loc) ?rest"
  let ?w = "sent_Write e (length batches) ?batch"
  note run = "1.prems"(2)
  show ?case
  proof (cases "int i < int (length results) - 1")
    case False
    with run have "ex = LoopDone" "ledger' = ledger" "batches' = batches"
      by (simp_all add: sendLoop.simps [of lim e results i])
    moreover have "length ?rest \<le> 1" using False by simp
    ultimately show ?thesis by (intro exI [of _ "[]"] exI [of _ ?rest]) simp
  next
    case more: True
    show ?thesis
    proof (cases "?loc \<le> 0")
      case True
      with run more have "ex = LocError" "ledger' = ledger" "batches' = batches"
        by (simp_all add: sendLoop.simps [of lim e results i])
      then show ?thesis by (intro exI [of _ "[]"] exI [of _ ?rest]) simp
    next
      case pos: False
      have le: "nat ?loc \<le> length ?rest" using chunkLoc_le_length [of lim ?rest] by simp
      have b_ne: "?batch \<noteq> []" using pos le more by auto
      have b_len: "length ?batch \<le> lim" using chunkLoc_le_lim [of lim ?rest] by simp
      have dd: "drop (i + nat ?loc) results = drop (nat ?loc) ?rest"
        by (simp add: add.commute)
      have split: "?rest = ?batch @ drop (i + nat ?loc) results"
        unfolding dd by (rule append_take_drop_id [symmetric])
      have b_nl: "last ?batch = LF" if "drop (i + nat ?loc) results \<noteq> []"
      proof -
        from that have "nat ?loc < length ?rest" by simp
        then have "lim < length ?rest" using chunkLoc_whole [of lim ?rest] by force
        then have "?rest ! (nat ?loc - 1) = LF" using pos by (intro chunkLoc_newline) simp_all
        moreover have "last ?batch = ?batch ! (length ?batch - 1)" using b_ne by (rule last_conv_nth)
        moreover have "length ?batch = nat ?loc" using le by simp
        ultimately show ?thesis using pos by simp
      qed
      show ?thesis
      proof (cases "sendbatch e (length batches) ?batch")
        case False
        with run more pos have "ex = SendBatchFailed" "ledger' = ledger" "batches' = batches @ [?batch]"
          by (simp_all add: sendLoop.simps [of lim e results i] Let_def)
        then show ?thesis using b_ne b_len split False
          by (intro exI [of _ "[?batch]"] exI [of _ "drop (i + nat ?loc) results"]) simp
      next
        case ack: True
        show ?thesis
        proof (cases "snd ?w \<or> written ?w ?batch \<noteq> length ?batch")
          case True
          with run more pos ack have "ex = SentWriteError"
            "ledger' = ledger @ take (written ?w ?batch) ?batch" "batches' = batches @ [?batch]"
            by (simp_all add: sendLoop.simps [of lim e results i] Let_def)
          then show ?thesis using b_ne b_len split
            by (intro exI [of _ "[?batch]"] exI [of _ "drop (i + nat ?loc) results"]) auto
        next
          case full: False
          then have "written ?w ?batch = length ?batch" by blast
          then have wr: "take (written ?w ?batch) ?batch = ?batch"
            by (simp only: take_all order_refl)
          have next_le: "i + nat ?loc \<le> length results" using le "1.prems"(1) by simp
          let ?led = "ledger @ take (written ?w ?batch) ?batch"
          have led: "?led = ledger @ ?batch" using wr by simp
          from run more pos ack full
          have rec: "sendLoop lim e results (i + nat ?loc) ?led (batches @ [?batch])
                = (ex, ledger', batches')"
            by (simp add: sendLoop.simps [of lim e results i] Let_def)
          have ack': "\<not> \<not> sendbatch e (length batches) ?batch" using ack by simp
          note ih = "1.IH" [OF more pos refl ack' refl refl full next_le rec]
          then obtain new tail where n:
            "batches' = (batches @ [?batch]) @ new \<and>
             drop (i + nat ?loc) results = concat new @ tail \<and>
             (\<forall>b\<in>set new. b \<noteq> [] \<and> length b \<le> lim) \<and>
             (\<forall>b\<in>set (butlast new). last b = LF) \<and>
             (ex = LoopDone \<longrightarrow> ledger' = ?led @ concat new \<and> length tail \<le> 1
                  \<and> (new \<noteq> [] \<and> tail \<noteq> [] \<longrightarrow> last (last new) = LF)) \<and>
             (ex = LocError \<longrightarrow> ledger' = ?led @ concat new) \<and>
             (ex = SendBatchFailed \<longrightarrow> new \<noteq> [] \<and> ledger' = ?led @ concat (butlast new)
                  \<and> \<not> sendbatch e (length (batches @ [?batch]) + length new - 1) (last new)) \<and>
             (ex = SentWriteError \<longrightarrow> new \<noteq> []
                  \<and> (\<exists>n. ledger' = ?led @ concat (butlast new) @ take n (last new)))"
            by blast
          have n1: "batches' = (batches @ [?batch]) @ new" using n by blast
          have n2: "drop (i + nat ?loc) results = concat new @ tail" using n by blast
          have n3: "\<forall>b\<in>set new. b \<noteq> [] \<and> length b \<le> lim" using n by blast
          have n4: "\<forall>b\<in>set (butlast new). last b = LF" using n by blast
          have n5: "ex = LoopDone \<longrightarrow> ledger' = (ledger @ ?batch) @ concat new \<and> length tail \<le> 1
                  \<and> (new \<noteq> [] \<and> tail \<noteq> [] \<longrightarrow> last (last new) = LF)"
            using n unfolding led by blast
          have n6: "ex = LocError \<longrightarrow> ledger' = (ledger @ ?batch) @ concat new"
            using n unfolding led by blast
          have n7: "ex = SendBatchFailed \<longrightarrow> new \<noteq> [] \<and> ledger' = (ledger @ ?batch) @ concat (butlast new)
                  \<and> \<not> sendbatch e (length (batches @ [?batch]) + length new - 1) (last new)"
            using n unfolding led by blast
          have n8: "ex = SentWriteError \<longrightarrow> new \<noteq> []
                  \<and> (\<exists>n. ledger' = (ledger @ ?batch) @ concat (butlast new) @ take n (last new))"
            using n unfolding led by blast
          have c1: "batches' = batches @ (?batch # new)" using n1 by simp
          have c2: "?rest = concat (?batch # new) @ tail" using split n2 by simp
          have c3: "\<forall>b\<in>set (?batch # new). b \<noteq> [] \<and> length b \<le> lim" using n3 b_ne b_len by simp
          have c4: "\<forall>b\<in>set (butlast (?batch # new)). last b = LF"
          proof (cases "new = []")
            case True then show ?thesis by simp
          next
            case False
            then have "concat new \<noteq> []" using n3 by (cases new) auto
            then have "drop (i + nat ?loc) results \<noteq> []" using n2 by simp
            then have "last ?batch = LF" by (rule b_nl)
            then show ?thesis using n4 False by simp
          qed
          have c5: "ex = LoopDone \<longrightarrow> ledger' = ledger @ concat (?batch # new) \<and> length tail \<le> 1
                  \<and> (?batch # new \<noteq> [] \<and> tail \<noteq> [] \<longrightarrow> last (last (?batch # new)) = LF)"
          proof (cases "new = []")
            case True
            then have "tail \<noteq> [] \<longrightarrow> last ?batch = LF" using n2 b_nl by simp
            then show ?thesis using n5 True by simp
          next
            case False then show ?thesis using n5 by simp
          qed
          have c6: "ex = LocError \<longrightarrow> ledger' = ledger @ concat (?batch # new)" using n6 by simp
          have c7: "ex = SendBatchFailed \<longrightarrow> ?batch # new \<noteq> []
                  \<and> ledger' = ledger @ concat (butlast (?batch # new))
                  \<and> \<not> sendbatch e (length batches + length (?batch # new) - 1) (last (?batch # new))"
            using n7 by auto
          have c8: "ex = SentWriteError \<longrightarrow> ?batch # new \<noteq> []
                  \<and> (\<exists>n. ledger' = ledger @ concat (butlast (?batch # new)) @ take n (last (?batch # new)))"
            using n8 by auto
          from c1 c2 c3 c4 c5 c6 c7 c8 show ?thesis by blast
        qed
      qed
    qed
  qed
qed


subsection \<open>Records, lines and the blob\<close>

lemma splitLines_nonempty: "splitLines b \<noteq> []"
  by (induction b) (auto split: list.splits)

lemma splitLines_no_newline: "l \<in> set (splitLines b) \<Longrightarrow> LF \<notin> set l"
proof (induction b arbitrary: l)
  case Nil
  then show ?case by simp
next
  case (Cons c cs)
  show ?case
  proof (cases "c = LF")
    case True
    with Cons show ?thesis by auto
  next
    case False
    obtain h t where ht: "splitLines cs = h # t"
      using splitLines_nonempty [of cs] by (cases "splitLines cs") auto
    with Cons.prems False have "l = c # h \<or> l \<in> set t" by simp
    then show ?thesis
    proof
      assume "l = c # h"
      moreover have "LF \<notin> set h" using Cons.IH [of h] ht by simp
      ultimately show ?thesis using False by simp
    next
      assume "l \<in> set t"
      then show ?thesis using Cons.IH [of l] ht by simp
    qed
  qed
qed

lemma dropWhile_keep: "\<not> P c \<Longrightarrow> dropWhile P (ys @ c # xs) = dropWhile P ys @ c # xs"
  by (induction ys) auto

lemma TrimRight_keep:
  "c \<notin> set cutset \<Longrightarrow> bytes_TrimRight (xs @ c # ys) cutset = xs @ c # bytes_TrimRight ys cutset"
  by (simp add: bytes_TrimRight_def dropWhile_keep)

lemma TrimRight_subset: "set (bytes_TrimRight s cutset) \<subseteq> set s"
  using set_dropWhileD [of _ "\<lambda>c. c \<in> set cutset" "rev s"] by (auto simp: bytes_TrimRight_def)

lemma TrimRight_append:
  assumes "bytes_TrimRight r cutset \<noteq> []"
  shows "bytes_TrimRight (p @ r) cutset = p @ bytes_TrimRight r cutset"
proof -
  from assms have "dropWhile (\<lambda>c. c \<in> set cutset) (rev r) \<noteq> []"
    by (simp add: bytes_TrimRight_def)
  then obtain x where "x \<in> set (rev r)" "\<not> x \<in> set cutset"
    by (metis dropWhile_eq_Nil_conv)
  then have "dropWhile (\<lambda>c. c \<in> set cutset) (rev r @ rev p) =
      dropWhile (\<lambda>c. c \<in> set cutset) (rev r) @ rev p"
    by (intro dropWhile_append1) auto
  then show ?thesis by (simp add: bytes_TrimRight_def)
qed

lemma isDigit_not_trimmed: "isDigit d \<Longrightarrow> d \<notin> set [CHR '' '', LF]"
  by (auto simp: isDigit_def)

lemma resultReg_Match_shape:
  "resultReg_Match r \<Longrightarrow> \<exists>pre d rest. r = pre @ CHR ''M'' # d # rest \<and> isDigit d"
proof (induction r)
  case Nil
  then show ?case by simp
next
  case (Cons c cs)
  show ?case
  proof (cases "c = CHR ''M'' \<and> takeWhile isDigit cs \<noteq> []")
    case True
    then obtain d rest where "cs = d # rest" "isDigit d"
      by (cases cs) (auto split: if_splits)
    with True have "c # cs = [] @ CHR ''M'' # d # rest \<and> isDigit d" by simp
    then show ?thesis by blast
  next
    case False
    with Cons.prems have "resultReg_Match cs" by auto
    with Cons.IH obtain pre d rest where "cs = pre @ CHR ''M'' # d # rest" "isDigit d" by blast
    then have "c # cs = (c # pre) @ CHR ''M'' # d # rest \<and> isDigit d" by simp
    then show ?thesis by blast
  qed
qed

lemma resultReg_Match_trimmed:
  assumes "resultReg_Match r"
  shows "2 \<le> length (bytes_TrimRight r [CHR '' '', LF])"
proof -
  from resultReg_Match_shape [OF assms] obtain pre d rest where
    r: "r = (pre @ [CHR ''M'']) @ d # rest" and d: "isDigit d" by auto
  have "bytes_TrimRight r [CHR '' '', LF] =
      (pre @ [CHR ''M'']) @ d # bytes_TrimRight rest [CHR '' '', LF]"
    unfolding r using isDigit_not_trimmed [OF d] by (rule TrimRight_keep)
  then show ?thesis by simp
qed

lemma LL_resultReg_Find_shape:
  "LL_resultReg_Find l = Some r \<Longrightarrow> set r \<subseteq> set l \<and> take 3 r = ''M( ''"
  by (induction l) (auto simp: LL_resultReg_here_def split: if_splits)

lemma LL_record_trimmed:
  assumes "take 3 r = ''M( ''"
  shows "2 \<le> length (bytes_TrimRight r [CHR '' '', LF])"
proof -
  from assms obtain rest where r: "r = [CHR ''M''] @ CHR ''('' # rest"
    by (cases r; cases "tl r") (auto split: if_splits)
  have "bytes_TrimRight r [CHR '' '', LF] = [CHR ''M''] @ CHR ''('' # bytes_TrimRight rest [CHR '' '', LF]"
    unfolding r by (rule TrimRight_keep) simp
  then show ?thesis by simp
qed

lemma bytes_Join_last:
  "recs \<noteq> [] \<Longrightarrow> \<exists>p. bytes_Join recs [LF] = p @ last recs \<and> (p = [] \<or> last p = LF)"
proof (induction recs "[LF]" rule: bytes_Join.induct)
  case 1
  then show ?case by simp
next
  case (2 x)
  show ?case by simp
next
  case (3 x y ys)
  then obtain p where p: "bytes_Join (y # ys) [LF] = p @ last (y # ys)" "p = [] \<or> last p = LF"
    by auto
  then have "bytes_Join (x # y # ys) [LF] = (x @ [LF] @ p) @ last (x # y # ys)" by simp
  moreover have "last (x @ [LF] @ p) = LF" using p(2) by auto
  ultimately show ?case by blast
qed

lemma blob_shape:
  assumes "recs \<noteq> []"
    and "\<forall>r\<in>set recs. LF \<notin> set r \<and> 2 \<le> length (bytes_TrimRight r [CHR '' '', LF])"
  shows "\<exists>p l. blob recs = p @ l \<and> (p = [] \<or> last p = LF) \<and> LF \<notin> set l \<and> 2 \<le> length l"
proof -
  from bytes_Join_last [OF assms(1)] obtain p where
    p: "bytes_Join recs [LF] = p @ last recs" "p = [] \<or> last p = LF" by blast
  let ?l = "bytes_TrimRight (last recs) [CHR '' '', LF]"
  have lr: "last recs \<in> set recs" using assms(1) by simp
  with assms(2) have l2: "2 \<le> length ?l" and nl: "LF \<notin> set (last recs)" by auto
  then have "?l \<noteq> []" by auto
  then have "blob recs = p @ ?l" unfolding blob_def p(1) by (rule TrimRight_append)
  moreover have "LF \<notin> set ?l" using nl TrimRight_subset [of "last recs"] by blast
  ultimately show ?thesis using p(2) l2 by blast
qed

lemma sendLoop_complete:
  assumes run: "sendLoop lim e results 0 ledger [] = (LoopDone, ledger', batches)"
    and shape: "results = [] \<or>
       (\<exists>p l. results = p @ l \<and> (p = [] \<or> last p = LF) \<and> LF \<notin> set l \<and> 2 \<le> length l)"
  shows "concat batches = results"
proof -
  from sendLoop_run [OF _ run] obtain tail where
    t1: "results = concat batches @ tail" and
    t2: "\<forall>b\<in>set batches. b \<noteq> [] \<and> length b \<le> lim" and
    t3: "length tail \<le> 1" and
    t4: "batches \<noteq> [] \<and> tail \<noteq> [] \<longrightarrow> last (last batches) = LF"
    by auto
  show ?thesis
  proof (cases tail)
    case Nil
    with t1 show ?thesis by simp
  next
    case (Cons c cs)
    with t3 have tail: "tail = [c]" by simp
    with t1 have "results \<noteq> []" by simp
    with shape obtain p l where
      pl: "results = p @ l" "LF \<notin> set l" "2 \<le> length l" by blast
    then have l: "l = butlast l @ [last l]" "butlast l \<noteq> []"
      by (cases l rule: rev_cases; cases "butlast l"; auto)+
    from t1 tail pl(1) have "concat batches @ [c] = (p @ butlast l) @ [last l]"
      using l(1) by (metis append.assoc)
    then have cb: "concat batches = p @ butlast l" by simp
    with l(2) have ne: "batches \<noteq> []" by auto
    then have "last batches \<noteq> []" using t2 by simp
    then have "last (concat batches) = last (last batches)"
      using ne by (metis append_butlast_last_id concat.simps(2) concat_append last_appendR append_Nil2 concat.simps(1))
    with t4 ne tail have "last (concat batches) = LF" by simp
    moreover have "last (concat batches) = last (butlast l)" using cb l(2) by simp
    moreover have "last (butlast l) \<in> set l" using l(2) by (metis in_set_butlastD last_in_set)
    ultimately show ?thesis using pl(2) by simp
  qed
qed


subsection \<open>The calls of sendResults\<close>

lemma curRes_records:
  "r \<in> set (curRes d) \<Longrightarrow> resultReg_Match r \<and> LF \<notin> set r"
  by (auto simp: curRes_def resultReg_FindAll_def dest: splitLines_no_newline)

lemma curRes_filterResults:
  "filterResults (curRes d) (asgn d) = Some (keep_of d, send_of d)"
proof -
  have "\<forall>r\<in>set (curRes d). resultExtract_Find r \<noteq> None"
    using curRes_records resultReg_Match_has_key by blast
  then show ?thesis unfolding keep_of_def send_of_def by (rule filterResults_partition)
qed

lemma sendResults_unfold:
  "sendResults e d =
     (if \<not> lockFile_ok e then early False LockFailed d
      else if \<not> open_todo_ok e then early False OpenTodoFailed d
      else if \<not> open_res_ok e then early False OpenResFailed d
      else if \<not> open_sent_ok e then early False OpenSentFailed d
      else if \<not> read_todo_ok e then early False ReadTodoFailed d
      else if \<not> read_res_ok e then early False ReadResFailed d
      else if curRes d = [] then early True NoResults d
      else finish e d (keep_of d) (send_of d)
             (sendLoop sendlimit e (blob (send_of d)) 0 (sent_txt d) []))"
  using curRes_filterResults [of d]
  by (simp add: sendResults_def Let_def curRes_def asgn_def)

lemma LL_sendResults_unfold:
  "LL_sendResults e d =
     (if \<not> lockFile_ok e then early False LockFailed d
      else if \<not> open_res_ok e \<or> \<not> read_res_ok e then early False ReadResFailed d
      else if \<not> open_sent_ok e then early False OpenSentFailed d
      else if LL_curRes d = [] then early True NoResults d
      else LL_finish e d (sendLoop sendlimit e (blob (LL_curRes d)) 0 (sent_txt d) []))"
  by (simp add: LL_sendResults_def Let_def LL_curRes_def)

lemma send_of_shape:
  "blob (send_of d) = [] \<or>
   (\<exists>p l. blob (send_of d) = p @ l \<and> (p = [] \<or> last p = LF) \<and> LF \<notin> set l \<and> 2 \<le> length l)"
proof (cases "send_of d = []")
  case True
  then show ?thesis by (simp add: blob_def bytes_TrimRight_def)
next
  case False
  have "\<forall>r\<in>set (send_of d). LF \<notin> set r \<and> 2 \<le> length (bytes_TrimRight r [CHR '' '', LF])"
    using curRes_records resultReg_Match_trimmed by (auto simp: send_of_def)
  from blob_shape [OF False this] show ?thesis by blast
qed

lemma LL_curRes_records:
  assumes "r \<in> set (LL_curRes d)"
  shows "LF \<notin> set r \<and> 2 \<le> length (bytes_TrimRight r [CHR '' '', LF])"
proof -
  from assms obtain l where l: "l \<in> set (splitLines (normalize (res_txt d)))"
    "LL_resultReg_Find l = Some r"
    by (auto simp: LL_curRes_def LL_resultReg_FindAll_def List.map_filter_def)
  from LL_resultReg_Find_shape [OF l(2)] have "set r \<subseteq> set l" "take 3 r = ''M( ''" by auto
  moreover have "LF \<notin> set l" using l(1) by (rule splitLines_no_newline)
  ultimately show ?thesis using LL_record_trimmed by blast
qed

lemma LL_curRes_shape:
  "blob (LL_curRes d) = [] \<or>
   (\<exists>p l. blob (LL_curRes d) = p @ l \<and> (p = [] \<or> last p = LF) \<and> LF \<notin> set l \<and> 2 \<le> length l)"
proof (cases "LL_curRes d = []")
  case True
  then show ?thesis by (simp add: blob_def bytes_TrimRight_def)
next
  case False
  have "\<forall>r\<in>set (LL_curRes d). LF \<notin> set r \<and> 2 \<le> length (bytes_TrimRight r [CHR '' '', LF])"
    using LL_curRes_records by blast
  from blob_shape [OF False this] show ?thesis by blast
qed

text \<open>What the two tails make of the result of the loop.\<close>

lemma finish_failed:
  "ex \<noteq> LoopDone \<Longrightarrow>
   finish e d keep send (ex, ledger, batches) =
     \<lparr>success = False, outcome = LoopFailed ex, files = d\<lparr>sent_txt := ledger\<rparr>,
      batches_sent = batches\<rparr>"
  by (simp add: finish_def)

lemma LL_finish_failed:
  "ex \<noteq> LoopDone \<Longrightarrow>
   LL_finish e d (ex, ledger, batches) =
     \<lparr>success = False, outcome = LoopFailed ex, files = d\<lparr>sent_txt := ledger\<rparr>,
      batches_sent = batches\<rparr>"
  by (simp add: LL_finish_def)

lemma finish_fields:
  "batches_sent (finish e d keep send (ex, ledger, batches)) = batches"
  "success (finish e d keep send (ex, ledger, batches)) \<longleftrightarrow> ex = LoopDone"
  "outcome (finish e d keep send (ex, ledger, batches)) = LoopFailed ex' \<longleftrightarrow> ex = ex' \<and> ex \<noteq> LoopDone"
  by (auto simp: finish_def Let_def)

lemma LL_finish_fields:
  "batches_sent (LL_finish e d (ex, ledger, batches)) = batches"
  "success (LL_finish e d (ex, ledger, batches)) \<longleftrightarrow> ex = LoopDone"
  "outcome (LL_finish e d (ex, ledger, batches)) = LoopFailed ex' \<longleftrightarrow> ex = ex' \<and> ex \<noteq> LoopDone"
  by (auto simp: LL_finish_def Let_def)

lemma early_fields:
  "batches_sent (early ok oc d) = []" "success (early ok oc d) = ok"
  "outcome (early ok oc d) = oc" "files (early ok oc d) = d"
  by (simp_all add: early_def)





lemma chunkLoc_no_newline:
  assumes "lim < length rest" "LF \<notin> set (take lim rest)"
  shows "chunkLoc lim rest = 0"
  using assms by (simp add: chunkLoc_def LastIndexByte_absent)

lemma sendLoop_no_newline:
  assumes "1 \<le> lim" "lim < length (drop i results)" "LF \<notin> set (take lim (drop i results))"
  shows "sendLoop lim e results i ledger batches = (LocError, ledger, batches)"
proof -
  have "chunkLoc lim (drop i results) = 0" using assms(2,3) by (rule chunkLoc_no_newline)
  moreover have "int i < int (length results) - 1" using assms(1,2) by simp
  ultimately show ?thesis by (simp add: sendLoop.simps [of lim e results i])
qed

lemma sendLoop_batches:
  assumes "sendLoop lim e results 0 ledger [] = (ex, ledger', batches)"
  shows "(\<forall>b\<in>set batches. length b \<le> lim) \<and> (\<forall>b\<in>set (butlast batches). last b = LF) \<and>
         (\<exists>tail. results = concat batches @ tail)"
  using sendLoop_run [OF _ assms] by auto

lemma sendResults_batches:
  "batches_sent (sendResults e d) = [] \<and> (success (sendResults e d) \<longrightarrow> send_of d = []) \<or>
     (\<exists>ex ledger'. sendLoop sendlimit e (blob (send_of d)) 0 (sent_txt d) []
         = (ex, ledger', batches_sent (sendResults e d)) \<and>
       (success (sendResults e d) \<longrightarrow> ex = LoopDone))"
proof (cases "files_ready e \<and> curRes d \<noteq> []")
  case True
  obtain ex ledger' batches where
    lp: "sendLoop sendlimit e (blob (send_of d)) 0 (sent_txt d) [] = (ex, ledger', batches)"
    by (cases "sendLoop sendlimit e (blob (send_of d)) 0 (sent_txt d) []") auto
  from True have "sendResults e d = finish e d (keep_of d) (send_of d) (ex, ledger', batches)"
    unfolding sendResults_unfold [of e d] lp by (simp add: files_ready_def)
  then show ?thesis using lp by (simp add: finish_fields)
next
  case False
  then have "(\<exists>ok oc. sendResults e d = early ok oc d \<and> (ok \<longrightarrow> curRes d = []))"
    unfolding sendResults_unfold [of e d] by (auto simp: files_ready_def)
  then show ?thesis by (auto simp: early_fields send_of_def)
qed

lemma LL_sendResults_batches:
  "batches_sent (LL_sendResults e d) = [] \<and>
       (success (LL_sendResults e d) \<longrightarrow> LL_curRes d = []) \<or>
     (\<exists>ex ledger'. sendLoop sendlimit e (blob (LL_curRes d)) 0 (sent_txt d) []
         = (ex, ledger', batches_sent (LL_sendResults e d)) \<and>
       (success (LL_sendResults e d) \<longrightarrow> ex = LoopDone))"
proof (cases "lockFile_ok e \<and> open_res_ok e \<and> read_res_ok e \<and> open_sent_ok e \<and> LL_curRes d \<noteq> []")
  case True
  obtain ex ledger' batches where
    lp: "sendLoop sendlimit e (blob (LL_curRes d)) 0 (sent_txt d) [] = (ex, ledger', batches)"
    by (cases "sendLoop sendlimit e (blob (LL_curRes d)) 0 (sent_txt d) []") auto
  from True have "LL_sendResults e d = LL_finish e d (ex, ledger', batches)"
    unfolding LL_sendResults_unfold [of e d] lp by simp
  then show ?thesis using lp by (simp add: LL_finish_fields)
next
  case False
  then have "(\<exists>ok oc. LL_sendResults e d = early ok oc d \<and> (ok \<longrightarrow> LL_curRes d = []))"
    unfolding LL_sendResults_unfold [of e d] by auto
  then show ?thesis by (auto simp: early_fields)
qed

lemma blob_Nil: "blob [] = []"
  by (simp add: blob_def bytes_TrimRight_def)

lemma chunking_of_call:
  assumes "batches = [] \<and> (ok \<longrightarrow> recs = []) \<or>
      (\<exists>ex ledger'. sendLoop lim e (blob recs) 0 ledger [] = (ex, ledger', batches) \<and>
         (ok \<longrightarrow> ex = LoopDone))"
    and "blob recs = [] \<or>
      (\<exists>p l. blob recs = p @ l \<and> (p = [] \<or> last p = LF) \<and> LF \<notin> set l \<and> 2 \<le> length l)"
  shows "(\<forall>b\<in>set batches. length b \<le> lim) \<and> (\<forall>b\<in>set (butlast batches). last b = LF) \<and>
         (\<exists>tail. blob recs = concat batches @ tail) \<and> (ok \<longrightarrow> concat batches = blob recs)"
  using assms(1)
proof (elim disjE exE conjE)
  assume "batches = []" "ok \<longrightarrow> recs = []"
  then show ?thesis by (auto simp: blob_Nil)
next
  fix ex ledger'
  assume lp: "sendLoop lim e (blob recs) 0 ledger [] = (ex, ledger', batches)"
    and ok: "ok \<longrightarrow> ex = LoopDone"
  have "ok \<longrightarrow> concat batches = blob recs"
  proof
    assume ok
    with ok lp have "sendLoop lim e (blob recs) 0 ledger [] = (LoopDone, ledger', batches)" by simp
    then show "concat batches = blob recs" using assms(2) by (rule sendLoop_complete)
  qed
  with sendLoop_batches [OF lp] show ?thesis by blast
qed

lemma sendResults_reaches_finish:
  assumes "files_ready e" "curRes d \<noteq> []"
  shows "sendResults e d = finish e d (keep_of d) (send_of d)
           (sendLoop sendlimit e (blob (send_of d)) 0 (sent_txt d) [])"
  using assms unfolding sendResults_unfold [of e d] by (simp add: files_ready_def)

lemma sendResults_Complete:
  assumes "outcome (sendResults e d) = Complete"
  shows "\<exists>ledger' batches.
      sendLoop sendlimit e (blob (send_of d)) 0 (sent_txt d) [] = (LoopDone, ledger', batches) \<and>
      sendResults e d = \<lparr>success = True, outcome = Complete,
         files = d\<lparr>res_txt := keepRes d,
           sent_txt := (if length (send_of d) > 0
              then ledger' @ take (written (sent_Write e (length batches) [LF]) [LF]) [LF]
              else ledger')\<rparr>,
         batches_sent = batches\<rparr>"
proof -
  obtain ex ledger' batches where
    lp: "sendLoop sendlimit e (blob (send_of d)) 0 (sent_txt d) [] = (ex, ledger', batches)"
    by (cases "sendLoop sendlimit e (blob (send_of d)) 0 (sent_txt d) []") auto
  from assms have run: "sendResults e d = finish e d (keep_of d) (send_of d) (ex, ledger', batches)"
    unfolding sendResults_unfold [of e d] lp by (simp add: early_fields split: if_splits)
  with assms have "ex = LoopDone"
    by (auto simp: finish_def split: if_splits)
  with run assms lp show ?thesis
    by (auto simp: finish_def Let_def keepRes_def split: if_splits)
qed

lemma sendResults_failure_keeps_results:
  "\<not> success (sendResults e d) \<Longrightarrow> res_txt (files (sendResults e d)) = res_txt d"
proof -
  obtain ex ledger' batches where
    lp: "sendLoop sendlimit e (blob (send_of d)) 0 (sent_txt d) [] = (ex, ledger', batches)"
    by (cases "sendLoop sendlimit e (blob (send_of d)) 0 (sent_txt d) []") auto
  assume "\<not> success (sendResults e d)"
  then show ?thesis
    unfolding sendResults_unfold [of e d] lp
    by (auto simp: early_fields finish_def Let_def split: if_splits)
qed

subsection \<open>Fetching and polling\<close>

lemma set_filterDups: "set (filterDups w w2) = set w \<union> set w2"
  by (induction w arbitrary: w2) auto

lemma distinct_filterDups: "distinct w2 \<Longrightarrow> distinct (filterDups w w2)"
  by (induction w arbitrary: w2) auto

lemma sendResults_never_panics: "outcome (sendResults e d) \<noteq> Panicked"
proof -
  obtain ex ledger' batches where
    lp: "sendLoop sendlimit e (blob (send_of d)) 0 (sent_txt d) [] = (ex, ledger', batches)"
    by (cases "sendLoop sendlimit e (blob (send_of d)) 0 (sent_txt d) []") auto
  show ?thesis
    unfolding sendResults_unfold [of e d] lp
    by (auto simp: early_fields finish_def Let_def split: if_splits)
qed

lemma polling_only_fatal: "polling sett r k ct = Some x \<Longrightarrow> x = Fatal"
proof (rule polling.raw_induct [where P = "\<lambda>sett r k ct y. y = Fatal"])
  fix polling' sett' ct' y and r' :: rounds and k' :: nat
  assume "\<And>s r k ct y. polling' s r k ct = Some y \<Longrightarrow> y = Fatal"
    and "(if ct' < 10
      then if \<not> login_ok r' k' \<and> \<not> gpu72 sett'
           then polling' sett' r' (k' + 1) (ct' + 1)
           else if \<not> list_all (update_ok r' k') [0..<length (Devices sett')]
                then polling' sett' r' (k' + 1) (ct' + 1)
                else if Polltime sett' = 0 then Some after_polling
                     else polling' sett' r' (k' + 1) (- 1 + 1)
      else Some after_polling) = Some y"
  then show "y = Fatal" by (auto simp: after_polling_def split: if_splits)
qed

lemma main_never_returns_after_polling:
  "main False sett r \<noteq> Some Returned"
  using polling_only_fatal [of sett r 0 0 Returned] by (auto simp: main_def)

lemma LL_polling_only_returns: "LL_polling sett r k = Some x \<Longrightarrow> x = Returned"
proof (rule LL_polling.raw_induct [where P = "\<lambda>sett r k y. y = Returned"])
  fix polling' sett' y and r' :: rounds and k' :: nat
  assume "\<And>s r k y. polling' s r k = Some y \<Longrightarrow> y = Returned"
    and "(if \<not> login_ok r' k' then polling' sett' r' (k' + 1)
      else if \<not> list_all (update_ok r' k') [0..<length (Devices sett')]
           then polling' sett' r' (k' + 1)
           else if Polltime sett' = 0 then Some Returned
                else polling' sett' r' (k' + 1)) = Some y"
  then show "y = Returned" by (auto split: if_splits)
qed

subsection \<open>The loop splits at the last newline within the limit and runs to its end\<close>

lemma LastIndexByte_last:
  assumes "bytes_LastIndexByte s c < int j" "j < length s"
  shows "s ! j \<noteq> c"
proof (cases "c \<in> set s")
  case False
  then show ?thesis using assms(2) nth_mem by metis
next
  case True
  let ?P = "\<lambda>x. x \<noteq> c"
  let ?k = "length (takeWhile ?P (rev s))"
  let ?m = "length s - Suc j"
  from True have "c \<in> set (rev s)" by simp
  then have k: "?k < length (rev s)" by (rule takeWhile_neq_less)
  from assms True k have m: "?m < ?k" by (simp add: bytes_LastIndexByte_def)
  then have "takeWhile ?P (rev s) ! ?m = rev s ! ?m" by (rule takeWhile_nth)
  moreover have "takeWhile ?P (rev s) ! ?m \<in> set (takeWhile ?P (rev s))" using m by (rule nth_mem)
  ultimately have "rev s ! ?m \<noteq> c" using set_takeWhileD by fastforce
  moreover have "rev s ! ?m = s ! j" using assms(2) by (simp add: rev_nth)
  ultimately show ?thesis by simp
qed

lemma chunkLoc_greedy:
  assumes "lim < length rest"
  shows "LF \<notin> set (take (lim - nat (chunkLoc lim rest)) (drop (nat (chunkLoc lim rest)) rest))"
proof
  let ?n = "nat (chunkLoc lim rest)"
  assume "LF \<in> set (take (lim - ?n) (drop ?n rest))"
  then obtain t where t: "t < length (take (lim - ?n) (drop ?n rest))"
    "take (lim - ?n) (drop ?n rest) ! t = LF"
    by (auto simp: in_set_conv_nth)
  then have tl: "t < lim - ?n" "?n + t < length rest" by auto
  with t(2) have at: "rest ! (?n + t) = LF" by simp
  have loc: "chunkLoc lim rest = bytes_LastIndexByte (take lim rest) LF + 1"
    using assms by (simp add: chunkLoc_def)
  have "- 1 \<le> bytes_LastIndexByte (take lim rest) LF" using LastIndexByte_bounds by blast
  with loc have "bytes_LastIndexByte (take lim rest) LF < int (?n + t)" by simp
  moreover have "?n + t < length (take lim rest)" using tl assms by simp
  ultimately have "take lim rest ! (?n + t) \<noteq> LF" by (rule LastIndexByte_last)
  moreover have "take lim rest ! (?n + t) = rest ! (?n + t)" using tl by simp
  ultimately show False using at by simp
qed

lemma splitLines_append:
  "splitLines (a @ LF # b) = splitLines a @ splitLines b"
proof (induction a)
  case Nil
  show ?case by simp
next
  case (Cons c a)
  obtain h t where ht: "splitLines a = h # t"
    using splitLines_nonempty [of a] by (cases "splitLines a") auto
  show ?case using Cons ht by simp
qed

lemma splitLines_line: "LF \<notin> set l \<Longrightarrow> splitLines l = [l]"
  by (induction l) auto

lemma splitLines_first:
  "splitLines xs = takeWhile (\<lambda>c. c \<noteq> LF) xs # tl (splitLines xs)"
proof (induction xs)
  case Nil
  show ?case by simp
next
  case (Cons c cs)
  obtain h t where ht: "splitLines cs = h # t"
    using splitLines_nonempty [of cs] by (cases "splitLines cs") auto
  with Cons show ?case by auto
qed

text \<open>When every line of the rest is shorter than the limit, a rest over the limit has a
  newline among its first \<open>lim\<close> bytes.\<close>

lemma short_lines_newline:
  assumes "\<forall>l\<in>set (splitLines rest). length l < lim" "lim < length rest"
  shows "0 < chunkLoc lim rest"
proof -
  let ?l = "takeWhile (\<lambda>c. c \<noteq> LF) rest"
  have "?l \<in> set (splitLines rest)" using splitLines_first [of rest] by (metis list.set_intros(1))
  with assms(1) have short: "length ?l < lim" by blast
  with assms(2) have "length ?l < length rest" by simp
  then have nl: "rest ! length ?l = LF" using nth_length_takeWhile [of "\<lambda>c. c \<noteq> LF" rest] by blast
  have "take lim rest ! length ?l = LF" using nl short by simp
  moreover have "length ?l < length (take lim rest)" using short assms(2) by simp
  ultimately have "LF \<in> set (take lim rest)" by (metis nth_mem)
  then have "0 \<le> bytes_LastIndexByte (take lim rest) LF"
    using takeWhile_neq_less [of LF "rev (take lim rest)"]
    by (simp add: bytes_LastIndexByte_def)
  then show ?thesis using assms(2) by (simp add: chunkLoc_def)
qed

lemma short_lines_drop:
  assumes "\<forall>l\<in>set (splitLines rest). length l < lim" "0 < n" "n \<le> length rest"
    "n < length rest \<longrightarrow> rest ! (n - 1) = LF"
  shows "\<forall>l\<in>set (splitLines (drop n rest)). length l < lim"
proof (cases "n < length rest")
  case False
  with assms(3) have "drop n rest = []" by simp
  moreover have "length (hd (splitLines rest)) < lim"
    using assms(1) splitLines_nonempty [of rest] by (metis list.set_sel(1))
  ultimately show ?thesis by simp
next
  case True
  with assms(4) have "rest ! (n - 1) = LF" by simp
  moreover have "rest = take (n - 1) rest @ rest ! (n - 1) # drop n rest"
    using True assms(2) id_take_nth_drop [of "n - 1" rest] by simp
  ultimately have "rest = take (n - 1) rest @ LF # drop n rest" by simp
  then have "splitLines rest = splitLines (take (n - 1) rest) @ splitLines (drop n rest)"
    using splitLines_append by metis
  with assms(1) show ?thesis by simp
qed

lemma sendLoop_progress:
  "\<forall>k b. sendbatch e k b \<Longrightarrow> \<forall>k b. sent_Write e k b = (length b, False) \<Longrightarrow>
   i \<le> length results \<Longrightarrow>
   \<forall>l\<in>set (splitLines (drop i results)). length l < lim \<Longrightarrow>
   fst (sendLoop lim e results i ledger batches) = LoopDone"
proof (induction lim e results i ledger batches rule: sendLoop.induct)
  case (1 lim e results i ledger batches)
  let ?rest = "drop i results"
  let ?loc = "chunkLoc lim ?rest"
  let ?batch = "take (nat ?loc) ?rest"
  let ?w = "sent_Write e (length batches) ?batch"
  let ?led = "ledger @ take (written ?w ?batch) ?batch"
  note e_ack = "1.prems"(1) and e_wr = "1.prems"(2) and bound = "1.prems"(3)
    and lines = "1.prems"(4)
  show ?case
  proof (cases "int i < int (length results) - 1")
    case False
    then show ?thesis by (simp add: sendLoop.simps [of lim e results i])
  next
    case more: True
    have pos: "\<not> ?loc \<le> 0"
    proof (cases "lim < length ?rest")
      case True
      with lines show ?thesis using short_lines_newline [of ?rest lim] by simp
    next
      case False
      then show ?thesis using more by (simp add: chunkLoc_whole)
    qed
    have le: "nat ?loc \<le> length ?rest" using chunkLoc_le_length [of lim ?rest] by simp
    have ack': "\<not> \<not> sendbatch e (length batches) ?batch" using e_ack by simp
    have full: "\<not> (snd ?w \<or> written ?w ?batch \<noteq> length ?batch)"
      using e_wr by (simp add: written_def)
    have next_le: "i + nat ?loc \<le> length results" using le bound by simp
    have at_nl: "nat ?loc < length ?rest \<longrightarrow> ?rest ! (nat ?loc - 1) = LF"
    proof
      assume "nat ?loc < length ?rest"
      then have "lim < length ?rest" using chunkLoc_whole [of lim ?rest] by force
      then show "?rest ! (nat ?loc - 1) = LF" using pos by (intro chunkLoc_newline) simp_all
    qed
    have "\<forall>l\<in>set (splitLines (drop (nat ?loc) ?rest)). length l < lim"
      using lines _ le at_nl by (rule short_lines_drop) (use pos in simp)
    moreover have "drop (nat ?loc) ?rest = drop (i + nat ?loc) results"
      by (simp add: add.commute)
    ultimately have next_lines: "\<forall>l\<in>set (splitLines (drop (i + nat ?loc) results)). length l < lim"
      by simp
    have "fst (sendLoop lim e results (i + nat ?loc) ?led (batches @ [?batch])) = LoopDone"
      using "1.IH" [OF more pos refl ack' refl refl full e_ack e_wr next_le next_lines] .
    moreover have "sendLoop lim e results i ledger batches =
        sendLoop lim e results (i + nat ?loc) ?led (batches @ [?batch])"
      using more pos ack' full by (simp add: sendLoop.simps [of lim e results i] Let_def)
    ultimately show ?thesis by simp
  qed
qed

lemma sendLoop_greedy:
  "i \<le> length results \<Longrightarrow>
   sendLoop lim e results i ledger batches = (ex, ledger', batches @ new) \<Longrightarrow>
   \<forall>pre b post. new = pre @ b # post \<and> post \<noteq> [] \<longrightarrow>
     LF \<notin> set (take (lim - length b) (drop (i + length (concat pre) + length b) results))"
proof (induction lim e results i ledger batches arbitrary: ex ledger' new
       rule: sendLoop.induct)
  case (1 lim e results i ledger batches)
  let ?rest = "drop i results"
  let ?loc = "chunkLoc lim ?rest"
  let ?batch = "take (nat ?loc) ?rest"
  let ?w = "sent_Write e (length batches) ?batch"
  let ?led = "ledger @ take (written ?w ?batch) ?batch"
  note bound = "1.prems"(1) and run = "1.prems"(2)
  have short: ?case if "length new \<le> 1"
  proof (intro allI impI)
    fix pre b post
    assume "new = pre @ b # post \<and> post \<noteq> []"
    then have "2 \<le> length new" by (cases post) auto
    with that show "LF \<notin> set (take (lim - length b) (drop (i + length (concat pre) + length b) results))"
      by simp
  qed
  show ?case
  proof (cases "int i < int (length results) - 1")
    case False
    with run have "new = []" by (simp add: sendLoop.simps [of lim e results i])
    then show ?thesis using short by simp
  next
    case more: True
    show ?thesis
    proof (cases "?loc \<le> 0")
      case True
      with run more have "new = []" by (simp add: sendLoop.simps [of lim e results i])
      then show ?thesis using short by simp
    next
      case pos: False
      have le: "nat ?loc \<le> length ?rest" using chunkLoc_le_length [of lim ?rest] by simp
      have blen: "length ?batch = nat ?loc" using le by simp
      show ?thesis
      proof (cases "sendbatch e (length batches) ?batch")
        case False
        with run more pos have "new = [?batch]"
          by (simp add: sendLoop.simps [of lim e results i] Let_def)
        then show ?thesis using short by simp
      next
        case ack: True
        show ?thesis
        proof (cases "snd ?w \<or> written ?w ?batch \<noteq> length ?batch")
          case True
          with run more pos ack have "new = [?batch]"
            by (simp add: sendLoop.simps [of lim e results i] Let_def)
          then show ?thesis using short by simp
        next
          case full: False
          have next_le: "i + nat ?loc \<le> length results" using le bound by simp
          have ack': "\<not> \<not> sendbatch e (length batches) ?batch" using ack by simp
          from run more pos ack full
          have rec: "sendLoop lim e results (i + nat ?loc) ?led (batches @ [?batch])
                = (ex, ledger', batches @ new)"
            by (simp add: sendLoop.simps [of lim e results i] Let_def)
          from sendLoop_run [OF next_le rec] obtain new' tail where
            n1: "batches @ new = (batches @ [?batch]) @ new'" and
            n2: "drop (i + nat ?loc) results = concat new' @ tail" and
            n3: "\<forall>b\<in>set new'. b \<noteq> [] \<and> length b \<le> lim"
            by blast
          from n1 have new: "new = ?batch # new'" by simp
          from rec n1 have rec': "sendLoop lim e results (i + nat ?loc) ?led (batches @ [?batch])
                = (ex, ledger', (batches @ [?batch]) @ new')" by simp
          note ih = "1.IH" [OF more pos refl ack' refl refl full next_le rec']
          show ?thesis
          proof (intro allI impI)
            fix pre b post
            assume dec: "new = pre @ b # post \<and> post \<noteq> []"
            show "LF \<notin> set (take (lim - length b) (drop (i + length (concat pre) + length b) results))"
            proof (cases pre)
              case Nil
              with dec new have b: "b = ?batch" and post: "new' = post" "post \<noteq> []" by auto
              then have "concat new' \<noteq> []" using n3 by (cases new') auto
              then have "drop (i + nat ?loc) results \<noteq> []" using n2 by simp
              then have "nat ?loc < length ?rest" by simp
              then have "lim < length ?rest" using chunkLoc_whole [of lim ?rest] by force
              then have "LF \<notin> set (take (lim - nat ?loc) (drop (nat ?loc) ?rest))"
                by (rule chunkLoc_greedy)
              moreover have "drop (nat ?loc) ?rest = drop (i + nat ?loc) results"
                by (simp add: add.commute)
              ultimately show ?thesis using Nil b blen by simp
            next
              case (Cons p pre')
              with dec new have p: "p = ?batch" and d': "new' = pre' @ b # post \<and> post \<noteq> []"
                by auto
              have eq: "i + length (concat pre) + length b =
                  i + nat ?loc + length (concat pre') + length b"
                using Cons p blen by simp
              show ?thesis unfolding eq using ih d' by blast
            qed
          qed
        qed
      qed
    qed
  qed
qed

lemma bytes_Join_lines:
  "recs \<noteq> [] \<Longrightarrow> \<forall>r\<in>set recs. LF \<notin> set r \<Longrightarrow> splitLines (bytes_Join recs [LF]) = recs"
proof (induction recs "[LF]" rule: bytes_Join.induct)
  case 1
  then show ?case by simp
next
  case (2 x)
  then show ?case by (simp add: splitLines_line)
next
  case (3 x y ys)
  then have "splitLines (bytes_Join (y # ys) [LF]) = y # ys" by simp
  moreover have "splitLines x = [x]" using "3.prems"(2) by (simp add: splitLines_line)
  moreover have "bytes_Join (x # y # ys) [LF] = x @ LF # bytes_Join (y # ys) [LF]" by simp
  ultimately show ?case by (simp only: splitLines_append) simp
qed

lemma TrimRight_length: "length (bytes_TrimRight r cutset) \<le> length r"
  using length_dropWhile_le [of "\<lambda>c. c \<in> set cutset" "rev r"] by (simp add: bytes_TrimRight_def)

lemma blob_lines:
  assumes shape: "\<forall>r\<in>set recs. LF \<notin> set r \<and> 2 \<le> length (bytes_TrimRight r [CHR '' '', LF])"
    and short: "\<forall>r\<in>set recs. length r < lim"
    and ne: "recs \<noteq> []"
  shows "\<forall>l\<in>set (splitLines (blob recs)). length l < lim"
proof -
  let ?t = "bytes_TrimRight (last recs) [CHR '' '', LF]"
  from bytes_Join_last [OF ne] obtain p where
    p: "bytes_Join recs [LF] = p @ last recs" "p = [] \<or> last p = LF" by blast
  have lr: "last recs \<in> set recs" using ne by simp
  with shape have "?t \<noteq> []" by auto
  then have bl: "blob recs = p @ ?t" unfolding blob_def p(1) by (rule TrimRight_append)
  have tnl: "LF \<notin> set ?t" using lr shape TrimRight_subset [of "last recs"] by blast
  have tlen: "length ?t < lim" using TrimRight_length [of "last recs"] short lr
    by (meson le_less_trans)
  have lines: "splitLines (bytes_Join recs [LF]) = recs"
    using ne shape by (intro bytes_Join_lines) auto
  show ?thesis
  proof (cases "p = []")
    case True
    then show ?thesis using bl tnl tlen by (simp add: splitLines_line)
  next
    case False
    with p(2) obtain p' where p': "p = p' @ [LF]" by (metis append_butlast_last_id)
    have "splitLines (p' @ LF # last recs) = recs" using lines p(1) p' by simp
    then have "recs = splitLines p' @ splitLines (last recs)" by (simp add: splitLines_append)
    then have "set recs = set (splitLines p') \<union> set (splitLines (last recs))"
      by (metis set_append)
    then have "set (splitLines p') \<subseteq> set recs" by blast
    moreover have "splitLines (blob recs) = splitLines p' @ [?t]"
      using bl p' tnl by (simp add: splitLines_append splitLines_line)
    ultimately show ?thesis using short tlen by auto
  qed
qed

lemma sendLoop_blob_completes:
  assumes shape: "\<forall>r\<in>set recs. LF \<notin> set r \<and> 2 \<le> length (bytes_TrimRight r [CHR '' '', LF])"
    and short: "\<forall>r\<in>set recs. length r < lim"
    and ack: "\<forall>k b. sendbatch e k b"
    and wr: "\<forall>k b. sent_Write e k b = (length b, False)"
  shows "fst (sendLoop lim e (blob recs) 0 ledger []) = LoopDone"
proof (cases "recs = []")
  case True
  then show ?thesis by (simp add: blob_Nil sendLoop.simps [of lim e "[]" 0])
next
  case False
  from blob_lines [OF shape short False]
  have "\<forall>l\<in>set (splitLines (drop 0 (blob recs))). length l < lim" by simp
  with sendLoop_progress [OF ack wr, of 0 "blob recs" lim ledger "[]"] show ?thesis by simp
qed

lemma send_of_records:
  "\<forall>r\<in>set (send_of d). LF \<notin> set r \<and> 2 \<le> length (bytes_TrimRight r [CHR '' '', LF])"
  using curRes_records resultReg_Match_trimmed by (auto simp: send_of_def)

lemma chunking_of_blob:
  assumes shape: "\<forall>r\<in>set rs. LF \<notin> set r \<and> 2 \<le> length (bytes_TrimRight r [CHR '' '', LF])"
    and run: "sendLoop lim e (blob rs) 0 ledger [] = (ex, ledger', batches)"
  shows "(\<forall>b\<in>set batches. length b \<le> lim) \<and>
         (\<forall>b\<in>set (butlast batches). last b = LF) \<and>
         (\<forall>pre b post. batches = pre @ b # post \<and> post \<noteq> [] \<longrightarrow>
            LF \<notin> set (take (lim - length b) (drop (length (concat pre) + length b) (blob rs)))) \<and>
         (\<exists>tail. blob rs = concat batches @ tail) \<and>
         (ex = LoopDone \<longrightarrow> concat batches = blob rs) \<and>
         ((\<forall>k b. sendbatch e k b) \<and> (\<forall>k b. sent_Write e k b = (length b, False)) \<and>
            (\<forall>r\<in>set rs. length r < lim) \<longrightarrow>
            ex = LoopDone \<and> concat batches = blob rs)"
proof -
  have sh: "blob rs = [] \<or>
      (\<exists>p l. blob rs = p @ l \<and> (p = [] \<or> last p = LF) \<and> LF \<notin> set l \<and> 2 \<le> length l)"
  proof (cases "rs = []")
    case True
    then show ?thesis by (simp add: blob_Nil)
  next
    case False
    from blob_shape [OF False shape] show ?thesis by blast
  qed
  have whole: "concat batches = blob rs" if "ex = LoopDone"
  proof -
    from run that have "sendLoop lim e (blob rs) 0 ledger [] = (LoopDone, ledger', batches)" by simp
    then show ?thesis using sh by (rule sendLoop_complete)
  qed
  have greedy: "\<forall>pre b post. batches = pre @ b # post \<and> post \<noteq> [] \<longrightarrow>
      LF \<notin> set (take (lim - length b) (drop (length (concat pre) + length b) (blob rs)))"
    using sendLoop_greedy [of 0 "blob rs" lim e ledger "[]" ex ledger' batches] run by simp
  have fin: "ex = LoopDone"
    if "(\<forall>k b. sendbatch e k b) \<and> (\<forall>k b. sent_Write e k b = (length b, False)) \<and>
        (\<forall>r\<in>set rs. length r < lim)"
    using sendLoop_blob_completes [OF shape, of lim e ledger] that run by simp
  from sendLoop_batches [OF run] greedy whole fin show ?thesis by blast
qed

lemma sendResults_link:
  "batches_sent (sendResults e d) = [] \<and> \<not> success (sendResults e d) \<and> \<not> files_ready e \<or>
   (\<exists>ex ledger'. sendLoop sendlimit e (blob (send_of d)) 0 (sent_txt d) []
        = (ex, ledger', batches_sent (sendResults e d)) \<and>
      (success (sendResults e d) \<longleftrightarrow> ex = LoopDone))"
proof (cases "files_ready e")
  case False
  then show ?thesis
    unfolding sendResults_unfold [of e d] by (auto simp: files_ready_def early_fields)
next
  case ready: True
  show ?thesis
  proof (cases "curRes d = []")
    case True
    then have "blob (send_of d) = []" by (simp add: send_of_def blob_Nil)
    then have "sendLoop sendlimit e (blob (send_of d)) 0 (sent_txt d) [] = (LoopDone, sent_txt d, [])"
      by (simp add: sendLoop.simps [of sendlimit e "[]" 0])
    moreover have "sendResults e d = early True NoResults d"
      using ready True unfolding sendResults_unfold [of e d] by (simp add: files_ready_def)
    ultimately show ?thesis by (simp add: early_fields)
  next
    case False
    obtain ex ledger' batches where
      lp: "sendLoop sendlimit e (blob (send_of d)) 0 (sent_txt d) [] = (ex, ledger', batches)"
      by (cases "sendLoop sendlimit e (blob (send_of d)) 0 (sent_txt d) []") auto
    have "sendResults e d = finish e d (keep_of d) (send_of d) (ex, ledger', batches)"
      using sendResults_reaches_finish [OF ready False] lp by simp
    then show ?thesis using lp by (simp add: finish_fields)
  qed
qed

lemma LL_sendResults_link:
  "batches_sent (LL_sendResults e d) = [] \<and> \<not> success (LL_sendResults e d) \<and> \<not> files_ready e \<or>
   (\<exists>ex ledger'. sendLoop sendlimit e (blob (LL_curRes d)) 0 (sent_txt d) []
        = (ex, ledger', batches_sent (LL_sendResults e d)) \<and>
      (success (LL_sendResults e d) \<longleftrightarrow> ex = LoopDone))"
proof (cases "lockFile_ok e \<and> open_res_ok e \<and> read_res_ok e \<and> open_sent_ok e")
  case False
  then show ?thesis
    unfolding LL_sendResults_unfold [of e d] by (auto simp: files_ready_def early_fields)
next
  case ready: True
  show ?thesis
  proof (cases "LL_curRes d = []")
    case True
    then have "sendLoop sendlimit e (blob (LL_curRes d)) 0 (sent_txt d) [] = (LoopDone, sent_txt d, [])"
      by (simp add: blob_Nil sendLoop.simps [of sendlimit e "[]" 0])
    moreover have "LL_sendResults e d = early True NoResults d"
      using ready True unfolding LL_sendResults_unfold [of e d] by simp
    ultimately show ?thesis by (simp add: early_fields)
  next
    case False
    obtain ex ledger' batches where
      lp: "sendLoop sendlimit e (blob (LL_curRes d)) 0 (sent_txt d) [] = (ex, ledger', batches)"
      by (cases "sendLoop sendlimit e (blob (LL_curRes d)) 0 (sent_txt d) []") auto
    have "LL_sendResults e d = LL_finish e d (ex, ledger', batches)"
      using ready False lp unfolding LL_sendResults_unfold [of e d] by simp
    then show ?thesis using lp by (simp add: LL_finish_fields)
  qed
qed

lemma chunking_of_linked_call:
  assumes link: "batches = [] \<and> \<not> ok \<and> \<not> ready \<or>
      (\<exists>ex ledger'. sendLoop lim e (blob rs) 0 ledger [] = (ex, ledger', batches) \<and>
         (ok \<longleftrightarrow> ex = LoopDone))"
    and shape: "\<forall>r\<in>set rs. LF \<notin> set r \<and> 2 \<le> length (bytes_TrimRight r [CHR '' '', LF])"
  shows "(\<forall>b\<in>set batches. length b \<le> lim) \<and>
         (\<forall>b\<in>set (butlast batches). last b = LF) \<and>
         (\<forall>pre b post. batches = pre @ b # post \<and> post \<noteq> [] \<longrightarrow>
            LF \<notin> set (take (lim - length b) (drop (length (concat pre) + length b) (blob rs)))) \<and>
         (\<exists>tail. blob rs = concat batches @ tail) \<and>
         (ok \<longrightarrow> concat batches = blob rs) \<and>
         (ready \<and> (\<forall>k b. sendbatch e k b) \<and> (\<forall>k b. sent_Write e k b = (length b, False)) \<and>
            (\<forall>r\<in>set rs. length r < lim) \<longrightarrow>
            ok \<and> concat batches = blob rs)"
  using link
proof (elim disjE exE conjE)
  assume "batches = []" "\<not> ok" "\<not> ready"
  then show ?thesis by simp
next
  fix ex ledger'
  assume lp: "sendLoop lim e (blob rs) 0 ledger [] = (ex, ledger', batches)"
    and ok: "ok \<longleftrightarrow> ex = LoopDone"
  from chunking_of_blob [OF shape lp] show ?thesis unfolding ok by blast
qed

section \<open>The claims\<close>



text \<open>
  C2.  In every call of TFmanager's \<open>sendResults\<close>, \<open>filterResults\<close> splits the records
  of the results file into \<open>send_of\<close>, those whose key does not occur in the queue text,
  and \<open>keep_of\<close>, those whose key does.  What is handed to \<open>sendbatch\<close> is a prefix of
  the blob of \<open>send_of\<close>, so no record whose key is in the queue is submitted; the kept
  records are what a complete call leaves in the results file, and a call that fails
  leaves the results file as it was.
\<close>

theorem TF_submits_only_absent_keys:
  "filterResults (curRes d) (asgn d) = Some (keep_of d, send_of d) \<and>
   (\<forall>r\<in>set (curRes d).
      (r \<in> set (send_of d) \<longleftrightarrow> \<not> bytes_Contains (asgn d) (record_key r)) \<and>
      (r \<in> set (keep_of d) \<longleftrightarrow> bytes_Contains (asgn d) (record_key r))) \<and>
   (\<exists>tail. blob (send_of d) = concat (batches_sent (sendResults e d)) @ tail) \<and>
   (outcome (sendResults e d) = Complete \<longrightarrow>
      res_txt (files (sendResults e d)) = bytes_Join (keep_of d) [LF] @ [LF]) \<and>
   (\<not> success (sendResults e d) \<longrightarrow> res_txt (files (sendResults e d)) = res_txt d)"
proof -
  have "\<forall>r\<in>set (curRes d).
      (r \<in> set (send_of d) \<longleftrightarrow> \<not> bytes_Contains (asgn d) (record_key r)) \<and>
      (r \<in> set (keep_of d) \<longleftrightarrow> bytes_Contains (asgn d) (record_key r))"
    by (simp add: send_of_def keep_of_def retained_def)
  moreover have "\<exists>tail. blob (send_of d) = concat (batches_sent (sendResults e d)) @ tail"
    using chunking_of_call [OF sendResults_batches send_of_shape, of e d] by blast
  moreover have "outcome (sendResults e d) = Complete \<longrightarrow>
      res_txt (files (sendResults e d)) = bytes_Join (keep_of d) [LF] @ [LF]"
    using sendResults_Complete [of e d] by (auto simp: keepRes_def)
  ultimately show ?thesis
    using curRes_filterResults [of d] sendResults_failure_keeps_results [of e d] by blast
qed

theorem TF_submits_only_absent_keys_witness:
  "curRes \<lparr>todo_txt = ''Factor=N/A,123,70,71'', res_txt = ''x M123 y'' @ [LF] @ ''M77 z'' @ [LF],
       sent_txt = ''old''\<rparr> = [''x M123 y'', ''M77 z''] \<and>
   bytes_Contains (asgn \<lparr>todo_txt = ''Factor=N/A,123,70,71'',
       res_txt = ''x M123 y'' @ [LF] @ ''M77 z'' @ [LF], sent_txt = ''old''\<rparr>) (record_key ''x M123 y'') \<and>
   keep_of \<lparr>todo_txt = ''Factor=N/A,123,70,71'', res_txt = ''x M123 y'' @ [LF] @ ''M77 z'' @ [LF],
       sent_txt = ''old''\<rparr> = [''x M123 y''] \<and>
   send_of \<lparr>todo_txt = ''Factor=N/A,123,70,71'', res_txt = ''x M123 y'' @ [LF] @ ''M77 z'' @ [LF],
       sent_txt = ''old''\<rparr> = [''M77 z''] \<and>
   outcome (sendResults io_ok \<lparr>todo_txt = ''Factor=N/A,123,70,71'',
       res_txt = ''x M123 y'' @ [LF] @ ''M77 z'' @ [LF], sent_txt = ''old''\<rparr>) = Complete \<and>
   res_txt (files (sendResults io_ok \<lparr>todo_txt = ''Factor=N/A,123,70,71'',
       res_txt = ''x M123 y'' @ [LF] @ ''M77 z'' @ [LF], sent_txt = ''old''\<rparr>)) = ''x M123 y'' @ [LF]"
proof -
  let ?d = "\<lparr>todo_txt = ''Factor=N/A,123,70,71'', res_txt = ''x M123 y'' @ [LF] @ ''M77 z'' @ [LF],
      sent_txt = ''old''\<rparr>"
  have recs: "curRes ?d = [''x M123 y'', ''M77 z'']"
    by (simp add: curRes_def resultReg_FindAll_def normalize_def isDigit_def)
  have key: "bytes_Contains (asgn ?d) (record_key ''x M123 y'')"
    by (simp add: asgn_def normalize_def record_key_def match_string_def isDigit_def)
  have send: "send_of ?d = [''M77 z'']" and keep: "keep_of ?d = [''x M123 y'']"
    unfolding send_of_def keep_of_def recs
    by (simp_all add: retained_def asgn_def normalize_def record_key_def match_string_def isDigit_def)
  have oc: "outcome (sendResults io_ok ?d) = Complete"
    by (simp add: sendResults_def io_ok_def refusing_def ledger_unwritable_def short_rewrite_def resultReg_FindAll_def normalize_def filterResults_def
        match_string_def isDigit_def blob_def bytes_TrimRight_def sendLoop.simps chunkLoc_def
        sendlimit_def finish_def written_def Let_def)
  from TF_submits_only_absent_keys [of ?d io_ok] recs key send keep oc show ?thesis by simp
qed

text \<open>
  C2, as the claim states it, for LLmanager: its \<open>sendResults\<close> does not read the queue
  file.  The record for the exponent 57885161 is submitted and cleared from the results
  file although 57885161 occurs in the queue.
\<close>

theorem LL_submits_queued_key:
  "LL_curRes \<lparr>todo_txt = ''DoubleCheck=N/A,57885161,75,1'' @ [LF],
       res_txt = ''M( 57885161 )C, 0x0123456789abcdef, n = 3200K'' @ [LF], sent_txt = []\<rparr> =
     [''M( 57885161 )C, 0x0123456789abcdef, n = 3200K''] \<and>
   LL_record_key ''M( 57885161 )C, 0x0123456789abcdef, n = 3200K'' = ''57885161'' \<and>
   bytes_Contains (normalize (''DoubleCheck=N/A,57885161,75,1'' @ [LF])) ''57885161'' \<and>
   LL_sendResults io_ok \<lparr>todo_txt = ''DoubleCheck=N/A,57885161,75,1'' @ [LF],
       res_txt = ''M( 57885161 )C, 0x0123456789abcdef, n = 3200K'' @ [LF], sent_txt = []\<rparr> =
     \<lparr>success = True, outcome = Complete,
      files = \<lparr>todo_txt = ''DoubleCheck=N/A,57885161,75,1'' @ [LF], res_txt = [],
        sent_txt = ''M( 57885161 )C, 0x0123456789abcdef, n = 3200K'' @ [LF]\<rparr>,
      batches_sent = [''M( 57885161 )C, 0x0123456789abcdef, n = 3200K'']\<rparr>"
  by (simp add: LL_sendResults_def LL_curRes_def LL_resultReg_FindAll_def List.map_filter_def
      LL_resultReg_here_def LL_record_key_def LL_finish_def io_ok_def refusing_def ledger_unwritable_def short_rewrite_def normalize_def isDigit_def
      blob_def bytes_TrimRight_def sendLoop.simps chunkLoc_def sendlimit_def written_def Let_def)

text \<open>
  C3.  \<open>filterResults\<close> walks the records in file order and returns them as two
  sequences: a record goes to the first (retain) exactly when its key --- the digits
  of the leftmost \<open>M\<close>-number in it --- occurs in the queue text as a substring, and to
  the second (submit) otherwise.  The verdict is a function of the key alone, so a later
  record with a key seen before gets the verdict of the first, and both sequences are
  the records of the input in their original order.  The records are those that
  \<open>resultReg\<close> extracts, each of which holds a key; on a record without a key the
  function panics.
\<close>

theorem filterResults_classification:
  assumes "\<forall>r\<in>set results. resultExtract_Find r \<noteq> None"
  shows "filterResults results queue =
           Some (filter (\<lambda>r. bytes_Contains queue (record_key r)) results,
                 filter (\<lambda>r. \<not> bytes_Contains queue (record_key r)) results)"
  using filterResults_partition [OF assms, of queue] by (simp add: retained_def [abs_def])

theorem filterResults_classification_witness:
  "resultExtract_Find ''x M123 y'' = Some ''M123'' \<and>
   resultExtract_Find ''M77 z'' = Some ''M77'' \<and>
   resultExtract_Find ''b M123 c'' = Some ''M123'' \<and>
   filterResults [''x M123 y'', ''M77 z'', ''b M123 c''] ''Factor=N/A,123,70,71'' =
     Some ([''x M123 y'', ''b M123 c''], [''M77 z''])"
  using filterResults_classification [of "[''x M123 y'', ''M77 z'', ''b M123 c'']" "''Factor=N/A,123,70,71''"]
  by (simp add: record_key_def match_string_def isDigit_def)

text \<open>
  C4.  The calls of \<open>sendResults\<close> of both managers, where the limit is \<open>sendlimit\<close>, and
  the loop itself for any limit, on the blob of records as the managers extract them
  (no newline inside, at least two bytes once trailing blanks are cut).  Each batch
  handed to \<open>sendbatch\<close> has at most as many bytes as the limit.  Each batch that another
  one follows ends with a newline, and the blob has no further newline within the limit
  from where that batch starts: every split is at a record boundary, the last one that
  the limit allows.  The batches, in the order in which they were sent, make up a prefix
  of the blob, and the whole blob when the loop runs to its end, that is, when the call
  returns \<open>true\<close>.  The loop does run to its end when every batch is acknowledged and
  written to the ledger and every record is shorter than the limit: the call then
  returns \<open>true\<close> and all of the blob was sent.
\<close>

theorem chunks_bounded_aligned_complete:
  assumes prog: "(run, recs) = (sendResults, send_of) \<or> (run, recs) = (LL_sendResults, LL_curRes)"
  shows "(\<forall>b\<in>set (batches_sent (run e d)). length b \<le> sendlimit) \<and>
         (\<forall>b\<in>set (butlast (batches_sent (run e d))). last b = LF) \<and>
         (\<forall>pre b post. batches_sent (run e d) = pre @ b # post \<and> post \<noteq> [] \<longrightarrow>
            LF \<notin> set (take (sendlimit - length b)
                        (drop (length (concat pre) + length b) (blob (recs d))))) \<and>
         (\<exists>tail. blob (recs d) = concat (batches_sent (run e d)) @ tail) \<and>
         (success (run e d) \<longrightarrow> concat (batches_sent (run e d)) = blob (recs d)) \<and>
         (files_ready e \<and> (\<forall>k b. sendbatch e k b) \<and>
            (\<forall>k b. sent_Write e k b = (length b, False)) \<and>
            (\<forall>r\<in>set (recs d). length r < sendlimit) \<longrightarrow>
            success (run e d) \<and> concat (batches_sent (run e d)) = blob (recs d)) \<and>
         ((\<forall>r\<in>set rs. LF \<notin> set r \<and> 2 \<le> length (bytes_TrimRight r [CHR '' '', LF])) \<and>
            sendLoop lim e (blob rs) 0 ledger [] = (ex, ledger', batches) \<longrightarrow>
            (\<forall>b\<in>set batches. length b \<le> lim) \<and>
            (\<forall>b\<in>set (butlast batches). last b = LF) \<and>
            (\<forall>pre b post. batches = pre @ b # post \<and> post \<noteq> [] \<longrightarrow>
               LF \<notin> set (take (lim - length b)
                           (drop (length (concat pre) + length b) (blob rs)))) \<and>
            (\<exists>tail. blob rs = concat batches @ tail) \<and>
            (ex = LoopDone \<longrightarrow> concat batches = blob rs) \<and>
            ((\<forall>k b. sendbatch e k b) \<and> (\<forall>k b. sent_Write e k b = (length b, False)) \<and>
               (\<forall>r\<in>set rs. length r < lim) \<longrightarrow>
               ex = LoopDone \<and> concat batches = blob rs))"
proof -
  have loop: "(\<forall>r\<in>set rs. LF \<notin> set r \<and> 2 \<le> length (bytes_TrimRight r [CHR '' '', LF])) \<and>
            sendLoop lim e (blob rs) 0 ledger [] = (ex, ledger', batches) \<longrightarrow>
            (\<forall>b\<in>set batches. length b \<le> lim) \<and>
            (\<forall>b\<in>set (butlast batches). last b = LF) \<and>
            (\<forall>pre b post. batches = pre @ b # post \<and> post \<noteq> [] \<longrightarrow>
               LF \<notin> set (take (lim - length b)
                           (drop (length (concat pre) + length b) (blob rs)))) \<and>
            (\<exists>tail. blob rs = concat batches @ tail) \<and>
            (ex = LoopDone \<longrightarrow> concat batches = blob rs) \<and>
            ((\<forall>k b. sendbatch e k b) \<and> (\<forall>k b. sent_Write e k b = (length b, False)) \<and>
               (\<forall>r\<in>set rs. length r < lim) \<longrightarrow>
               ex = LoopDone \<and> concat batches = blob rs)"
    using chunking_of_blob [of rs lim e ledger ex ledger' batches] by blast
  from prog show ?thesis
  proof
    assume "(run, recs) = (sendResults, send_of)"
    then have p: "run = sendResults" "recs = send_of" by simp_all
    from chunking_of_linked_call [OF sendResults_link [of e d] send_of_records [of d]] loop
    show ?thesis unfolding p by blast
  next
    assume "(run, recs) = (LL_sendResults, LL_curRes)"
    then have p: "run = LL_sendResults" "recs = LL_curRes" by simp_all
    have shape: "\<forall>r\<in>set (LL_curRes d). LF \<notin> set r \<and> 2 \<le> length (bytes_TrimRight r [CHR '' '', LF])"
      using LL_curRes_records by blast
    from chunking_of_linked_call [OF LL_sendResults_link [of e d] shape] loop
    show ?thesis unfolding p by blast
  qed
qed

theorem chunks_bounded_aligned_complete_witness:
  "list_all (\<lambda>r. LF \<notin> set r \<and> 2 \<le> length (bytes_TrimRight r [CHR '' '', LF]) \<and> length r < 6)
     [''ab'', ''cd'', ''ef''] \<and>
   sendLoop 6 io_ok (blob [''ab'', ''cd'', ''ef'']) 0 [] [] =
     (LoopDone, ''ab'' @ [LF] @ ''cd'' @ [LF] @ ''ef'', [''ab'' @ [LF] @ ''cd'' @ [LF], ''ef'']) \<and>
   last (''ab'' @ [LF] @ ''cd'' @ [LF]) = LF \<and>
   concat [''ab'' @ [LF] @ ''cd'' @ [LF], ''ef''] = blob [''ab'', ''cd'', ''ef''] \<and>
   files_ready io_ok \<and>
   send_of \<lparr>todo_txt = ''Factor=N/A,123,70,71'',
       res_txt = ''x M123 y'' @ [LF] @ ''M77 z  '' @ [LF], sent_txt = ''old''\<rparr> = [''M77 z  ''] \<and>
   success (sendResults io_ok
      \<lparr>todo_txt = ''Factor=N/A,123,70,71'', res_txt = ''x M123 y'' @ [LF] @ ''M77 z  '' @ [LF],
       sent_txt = ''old''\<rparr>) \<and>
   concat (batches_sent (sendResults io_ok
      \<lparr>todo_txt = ''Factor=N/A,123,70,71'', res_txt = ''x M123 y'' @ [LF] @ ''M77 z  '' @ [LF],
       sent_txt = ''old''\<rparr>)) = ''M77 z''"
proof -
  let ?d = "\<lparr>todo_txt = ''Factor=N/A,123,70,71'',
       res_txt = ''x M123 y'' @ [LF] @ ''M77 z  '' @ [LF], sent_txt = ''old''\<rparr>"
  let ?rs = "[''ab'', ''cd'', ''ef'']"
  let ?b1 = "''ab'' @ [LF] @ ''cd'' @ [LF]"
  have recs: "list_all (\<lambda>r. LF \<notin> set r \<and> 2 \<le> length (bytes_TrimRight r [CHR '' '', LF]) \<and>
      length r < 6) ?rs"
    by (simp add: bytes_TrimRight_def)
  have bl: "blob ?rs = ''ab'' @ [LF] @ ''cd'' @ [LF] @ ''ef''"
    by (simp add: blob_def bytes_TrimRight_def)
  have run: "sendLoop 6 io_ok (blob ?rs) 0 [] [] =
      (LoopDone, ''ab'' @ [LF] @ ''cd'' @ [LF] @ ''ef'', [?b1, ''ef''])"
    unfolding bl
    by (simp add: sendLoop.simps chunkLoc_def bytes_LastIndexByte_def io_ok_def written_def Let_def)
  have ready: "files_ready io_ok" "\<forall>k b. sendbatch io_ok k b"
    "\<forall>k b. sent_Write io_ok k b = (length b, False)"
    by (simp_all add: files_ready_def io_ok_def)
  have cur: "curRes ?d = [''x M123 y'', ''M77 z  '']"
    by (simp add: curRes_def resultReg_FindAll_def normalize_def isDigit_def)
  have send: "send_of ?d = [''M77 z  '']"
    unfolding send_of_def cur
    by (simp add: retained_def asgn_def normalize_def record_key_def match_string_def isDigit_def)
  have short: "\<forall>r\<in>set (send_of ?d). length r < sendlimit"
    unfolding send by (simp add: sendlimit_def)
  have sb: "blob (send_of ?d) = ''M77 z''"
    unfolding send by (simp add: blob_def bytes_TrimRight_def)
  note inst = chunks_bounded_aligned_complete [of sendResults send_of io_ok ?d ?rs 6 "[]"
      LoopDone "''ab'' @ [LF] @ ''cd'' @ [LF] @ ''ef''" "[?b1, ''ef'']"]
  from inst ready short have call: "success (sendResults io_ok ?d) \<and>
      concat (batches_sent (sendResults io_ok ?d)) = blob (send_of ?d)"
    by blast
  from inst recs run have loop: "(\<forall>b\<in>set (butlast [?b1, ''ef'']). last b = LF) \<and>
      concat [?b1, ''ef''] = blob ?rs"
    by (simp only: list_all_iff) blast
  from recs run ready(1) send call loop show ?thesis unfolding sb by simp
qed

text \<open>
  C5.  At any round of the loop, with any limit of at least one byte, so with
  \<open>sendlimit\<close>: when the unsent rest is longer than the limit and its first \<open>lim\<close> bytes hold no
  newline, the loop ends at once with the \<open>Loc error\<close> exit, no batch is handed to
  \<open>sendbatch\<close>, nothing is appended to the ledger, and the call of either manager
  returns \<open>false\<close> with that outcome.
\<close>

theorem oversized_record_fails_call:
  assumes "1 \<le> lim" "lim < length (drop i results)" "LF \<notin> set (take lim (drop i results))"
  shows "sendLoop lim e results i ledger batches = (LocError, ledger, batches) \<and>
         finish e d keep send (sendLoop lim e results i ledger batches) =
           \<lparr>success = False, outcome = LoopFailed LocError,
            files = d\<lparr>sent_txt := ledger\<rparr>, batches_sent = batches\<rparr> \<and>
         LL_finish e d (sendLoop lim e results i ledger batches) =
           \<lparr>success = False, outcome = LoopFailed LocError,
            files = d\<lparr>sent_txt := ledger\<rparr>, batches_sent = batches\<rparr>"
  using sendLoop_no_newline [OF assms, of e ledger batches]
  by (simp add: finish_failed LL_finish_failed)

theorem oversized_record_fails_call_witness:
  "(1::nat) \<le> 3 \<and> 3 < length (drop 3 (''ab'' @ [LF] @ ''cdefgh'')) \<and>
   LF \<notin> set (take 3 (drop 3 (''ab'' @ [LF] @ ''cdefgh''))) \<and>
   sendLoop 3 io_ok (''ab'' @ [LF] @ ''cdefgh'') 3 (''ab'' @ [LF]) [''ab'' @ [LF]] =
     (LocError, ''ab'' @ [LF], [''ab'' @ [LF]])"
  using oversized_record_fails_call [of 3 3 "''ab'' @ [LF] @ ''cdefgh''" io_ok "''ab'' @ [LF]"
      "[''ab'' @ [LF]]"]
  by simp

text \<open>
  C6.  \<open>setTargets\<close> with the default target 73 on the fetched record
  \<open>Factor=N/A,86000011,70,9\<close>: the last field, 9, is below the target, and \<open>copy\<close>
  writes only as many bytes of \<open>73\<close> as the field has, so the field becomes 7, a value
  below the one the record came with.  In the same way a target of 100 turns the field
  72 into 10.
\<close>

theorem setTargets_lowers_short_field:
  "setTargets \<lparr>Target = 73, Cache = 5\<rparr> [''Factor=N/A,86000011,70,9''] =
     [''Factor=N/A,86000011,70,7''] \<and>
   workReg_FindAll ''Factor=N/A,86000011,70,9'' = [''Factor=N/A,86000011,70,9''] \<and>
   last_field ''Factor=N/A,86000011,70,9'' = 9 \<and>
   last_field ''Factor=N/A,86000011,70,7'' = 7 \<and>
   setTargets \<lparr>Target = 100, Cache = 5\<rparr> [''Factor=N/A,86000011,70,72''] =
     [''Factor=N/A,86000011,70,10'']"
  by (simp add: setTargets_def setTarget_def last_field_def bytes_LastIndexByte_def Atoi_def
      decimal_def isDigit_def copy_def Sprint.simps workReg_FindAll_def List.map_filter_def
      tripleAt_def group_def)

text \<open>
  C7.  A \<open>topoff\<close> that fetches from GPU72: the records found in the response go through
  \<open>filterDups\<close>, which compares whole records byte for byte, so the fetched batch that is
  appended holds each of its records once; a successful \<open>topoff\<close> leaves the queue file
  holding the records it had, followed by that batch.
\<close>

theorem GPU72_batch_deduplicated:
  assumes "lock_todo_ok nt" "open_queue_ok nt" "read_queue_ok nt"
    and "int (length (workReg_FindAll (normalize queue))) < sint (Cache dev)"
    and "gpu72 sett"
    and "gpu72_body nt (Cache dev - of_nat (length (workReg_FindAll (normalize queue)))) = Some body"
    and "workReg_FindAll body \<noteq> []"
  shows "distinct (filterDups (workReg_FindAll body) []) \<and>
         set (filterDups (workReg_FindAll body) []) = set (workReg_FindAll body) \<and>
         (fst (topoff sett nt dev queue) \<longrightarrow>
            snd (topoff sett nt dev queue) =
              bytes_Join (workReg_FindAll (normalize queue) @ filterDups (workReg_FindAll body) [])
                [LF])"
proof -
  let ?n = "Cache dev - of_nat (length (workReg_FindAll (normalize queue)))"
  let ?w2 = "filterDups (workReg_FindAll body) []"
  have s: "set ?w2 = set (workReg_FindAll body)" by (simp add: set_filterDups)
  with assms(7) have ne: "?w2 \<noteq> []" by auto
  have gw: "getWorkGPU72 nt ?n dev = Some ?w2" using assms(6) by (simp add: getWorkGPU72_def)
  have ln: "len (Some ?w2) \<noteq> 0" using ne by (simp add: len_def)
  have "topoff sett nt dev queue =
      (let workFile = bytes_Join (workReg_FindAll (normalize queue) @ ?w2) [LF];
           wr = todo_WriteAt nt workFile; k = written wr workFile
       in (\<not> (snd wr \<or> k \<noteq> length workFile), take k workFile))"
    using assms(1-5) gw ln by (simp add: topoff_def Let_def)
  then have "fst (topoff sett nt dev queue) \<longrightarrow>
      snd (topoff sett nt dev queue) = bytes_Join (workReg_FindAll (normalize queue) @ ?w2) [LF]"
    by (simp add: Let_def)
  with s show ?thesis by (simp add: distinct_filterDups)
qed

theorem GPU72_batch_deduplicated_witness:
  "workReg_FindAll (normalize []) = [] \<and>
   workReg_FindAll (''Factor=N/A,86000011,72,73'' @ [LF] @ ''Factor=N/A,86000011,72,73'' @ [LF]) =
     [''Factor=N/A,86000011,72,73'', ''Factor=N/A,86000011,72,73''] \<and>
   topoff \<lparr>Polltime = 2, primenet = False, gpu72 = True, Devices = []\<rparr>
     (provider (Some (''Factor=N/A,86000011,72,73'' @ [LF] @
                      ''Factor=N/A,86000011,72,73'' @ [LF])) None)
     \<lparr>Target = 73, Cache = 5\<rparr> [] = (True, ''Factor=N/A,86000011,72,73'')"
proof -
  let ?body = "''Factor=N/A,86000011,72,73'' @ [LF] @ ''Factor=N/A,86000011,72,73'' @ [LF]"
  let ?nt = "provider (Some ?body) None"
  let ?sett = "\<lparr>Polltime = 2, primenet = False, gpu72 = True, Devices = []\<rparr>"
  have q: "workReg_FindAll (normalize []) = []"
    by (simp add: workReg_FindAll_def normalize_def List.map_filter_def)
  have b: "workReg_FindAll ?body = [''Factor=N/A,86000011,72,73'', ''Factor=N/A,86000011,72,73'']"
    by (simp add: workReg_FindAll_def List.map_filter_def tripleAt_def group_def isDigit_def)
  have t: "topoff ?sett ?nt \<lparr>Target = 73, Cache = 5\<rparr> [] = (True, ''Factor=N/A,86000011,72,73'')"
    using q [simplified] b [simplified]
    by (simp add: topoff_def getWorkGPU72_def len_def written_def Let_def provider_def)
  from GPU72_batch_deduplicated [of ?nt "[]" "\<lparr>Target = 73, Cache = 5\<rparr>" ?sett ?body] q b t
  show ?thesis by (simp add: provider_def)
qed

text \<open>
  C7, as the claim states it: with Primenet as the provider, \<open>getWork\<close> returns the
  records of the response as they are found.  A response that holds the same record
  twice puts it into the queue twice.
\<close>

theorem primenet_batch_keeps_duplicates:
  "workReg_FindAll (''Factor=N/A,86000011,72,73'' @ [LF] @ ''Factor=N/A,86000011,72,73'' @ [LF]) =
     [''Factor=N/A,86000011,72,73'', ''Factor=N/A,86000011,72,73''] \<and>
   topoff \<lparr>Polltime = 2, primenet = True, gpu72 = False, Devices = []\<rparr>
     (provider None (Some (''Factor=N/A,86000011,72,73'' @ [LF] @
                           ''Factor=N/A,86000011,72,73'' @ [LF])))
     \<lparr>Target = 73, Cache = 5\<rparr> [] =
     (True, ''Factor=N/A,86000011,72,73'' @ [LF] @ ''Factor=N/A,86000011,72,73'')"
proof -
  let ?body = "''Factor=N/A,86000011,72,73'' @ [LF] @ ''Factor=N/A,86000011,72,73'' @ [LF]"
  have q: "workReg_FindAll (normalize []) = []"
    by (simp add: workReg_FindAll_def normalize_def List.map_filter_def)
  have b: "workReg_FindAll ?body = [''Factor=N/A,86000011,72,73'', ''Factor=N/A,86000011,72,73'']"
    by (simp add: workReg_FindAll_def List.map_filter_def tripleAt_def group_def isDigit_def)
  have st: "setTarget \<lparr>Target = 73, Cache = 5\<rparr> ''Factor=N/A,86000011,72,73'' =
      ''Factor=N/A,86000011,72,73''"
    by (simp add: setTarget_def bytes_LastIndexByte_def Atoi_def decimal_def isDigit_def)
  show ?thesis
    using q [simplified] b [simplified]
    by (simp add: topoff_def getWork_def len_def written_def Let_def FindAll_result_def
        setTargets_def st provider_def)
qed

text \<open>
  C8.  TFmanager in single-shot mode: the poll time is 0, the login and the update of
  the one device succeed in the first round.  The \<open>break\<close> leaves the loop for the
  \<open>log.Fatal\<close> after it, so the process ends with the fatal exit and not by returning
  from \<open>main\<close>.  LLmanager's \<open>main\<close> returns in the same situation.
\<close>

theorem main_single_shot_is_fatal:
  "main False \<lparr>Polltime = 0, primenet = True, gpu72 = False,
                 Devices = [\<lparr>Target = 73, Cache = 5\<rparr>]\<rparr>
     rounds_ok = Some Fatal \<and>
   LL_main False \<lparr>Polltime = 0, primenet = True, gpu72 = False,
                    Devices = [\<lparr>Target = 73, Cache = 5\<rparr>]\<rparr>
     rounds_ok = Some Returned"
  by (simp add: main_def polling.simps after_polling_def LL_main_def LL_polling.simps
      rounds_ok_def)




text \<open>
  C10.  TFmanager's \<open>sendResults\<close> after a loop that ran to its end: when the write of
  the kept records reports an error or fewer bytes than it was given, the call still
  returns \<open>true\<close>; the results file is not truncated: it holds the bytes that were
  written, followed by what the old file had beyond them.
\<close>

theorem kept_write_failure_still_success:
  assumes "files_ready e" "curRes d \<noteq> []"
    and "fst (sendLoop sendlimit e (blob (send_of d)) 0 (sent_txt d) []) = LoopDone"
    and "snd (res_WriteAt e (keepRes d)) \<or>
         written (res_WriteAt e (keepRes d)) (keepRes d) \<noteq> length (keepRes d)"
  shows "success (sendResults e d) \<and> outcome (sendResults e d) = KeptWriteError \<and>
         res_txt (files (sendResults e d)) =
           take (written (res_WriteAt e (keepRes d)) (keepRes d)) (keepRes d) @
           drop (written (res_WriteAt e (keepRes d)) (keepRes d)) (res_txt d)"
proof -
  obtain ledger' batches where
    lp: "sendLoop sendlimit e (blob (send_of d)) 0 (sent_txt d) [] = (LoopDone, ledger', batches)"
    using assms(3) by (cases "sendLoop sendlimit e (blob (send_of d)) 0 (sent_txt d) []") auto
  have "sendResults e d = finish e d (keep_of d) (send_of d) (LoopDone, ledger', batches)"
    using sendResults_reaches_finish [OF assms(1,2)] lp by simp
  then show ?thesis using assms(4) by (auto simp: finish_def Let_def keepRes_def)
qed

theorem kept_write_failure_still_success_witness:
  "files_ready short_rewrite \<and>
   sendResults short_rewrite
     \<lparr>todo_txt = ''Factor=N/A,123,70,71'', res_txt = ''x M123 y'' @ [LF] @ ''M77 z'' @ [LF],
      sent_txt = ''old''\<rparr> =
     \<lparr>success = True, outcome = KeptWriteError,
      files = \<lparr>todo_txt = ''Factor=N/A,123,70,71'',
        res_txt = ''x M123 y'' @ [LF] @ ''M77 z'' @ [LF], sent_txt = ''oldM77 z'' @ [LF]\<rparr>,
      batches_sent = [''M77 z'']\<rparr>"
proof -
  let ?e = short_rewrite
  let ?d = "\<lparr>todo_txt = ''Factor=N/A,123,70,71'', res_txt = ''x M123 y'' @ [LF] @ ''M77 z'' @ [LF],
      sent_txt = ''old''\<rparr>"
  have ready: "files_ready ?e" by (simp add: files_ready_def io_ok_def refusing_def ledger_unwritable_def short_rewrite_def)
  have recs: "curRes ?d = [''x M123 y'', ''M77 z'']"
    by (simp add: curRes_def resultReg_FindAll_def normalize_def isDigit_def)
  have send: "send_of ?d = [''M77 z'']" and keep: "keepRes ?d = ''x M123 y'' @ [LF]"
    unfolding send_of_def keepRes_def keep_of_def recs
    by (simp_all add: retained_def asgn_def normalize_def record_key_def match_string_def isDigit_def)
  have lp: "sendLoop sendlimit ?e (blob (send_of ?d)) 0 (sent_txt ?d) [] =
      (LoopDone, ''oldM77 z'', [''M77 z''])"
    unfolding send
    by (simp add: io_ok_def refusing_def ledger_unwritable_def short_rewrite_def blob_def bytes_TrimRight_def sendLoop.simps chunkLoc_def
        sendlimit_def written_def Let_def)
  have wr: "snd (res_WriteAt ?e (keepRes ?d))" by (simp add: io_ok_def refusing_def ledger_unwritable_def short_rewrite_def)
  have run: "sendResults ?e ?d = \<lparr>success = True, outcome = KeptWriteError,
      files = \<lparr>todo_txt = ''Factor=N/A,123,70,71'',
        res_txt = ''x M123 y'' @ [LF] @ ''M77 z'' @ [LF], sent_txt = ''oldM77 z'' @ [LF]\<rparr>,
      batches_sent = [''M77 z'']\<rparr>"
    by (simp add: sendResults_def io_ok_def refusing_def ledger_unwritable_def short_rewrite_def resultReg_FindAll_def normalize_def filterResults_def
        match_string_def isDigit_def blob_def bytes_TrimRight_def sendLoop.simps chunkLoc_def
        sendlimit_def finish_def written_def Let_def)
  from kept_write_failure_still_success [of ?e ?d] ready recs lp wr run show ?thesis by simp
qed

end
